theory Spec2Isabelle
  imports Main "HOL-Library.Monad_Syntax"
begin

section \<open>Dots and Squares: the session and its arrays\<close>

text \<open>
  The repository holds two variants of one program: \<^verbatim>\<open>src/index.js\<close> and a second
  file \<^verbatim>\<open>src/unnamed/part_000\<close>. Functions that are the same in both are modelled
  once; where they differ the model of the second file carries the suffix
  \<^verbatim>\<open>_part_000\<close>.

  The module-level variable \<^verbatim>\<open>gameState\<close> is passed explicitly and returned
  updated. The players are the two strings \<^verbatim>\<open>'PLAYER_1'\<close> and \<^verbatim>\<open>'PLAYER_2'\<close>; a cell
  of \<^verbatim>\<open>squares\<close> is \<^verbatim>\<open>null\<close> (\<open>None\<close>) or a player. The object \<^verbatim>\<open>scores\<close> has exactly the
  two player keys and is a total map.
\<close>

datatype player = PLAYER_1 | PLAYER_2

record gameState =
  rows :: nat
  cols :: nat
  horizontalLines :: "bool list list"
  verticalLines :: "bool list list"
  squares :: "player option list list"
  currentPlayer :: player
  scores :: "player \<Rightarrow> nat"
  isGameOver :: bool
  moveCount :: nat

text \<open>
  The \<^verbatim>\<open>type\<close> argument of a move is whatever the caller passes; the code only compares
  it with the string \<^verbatim>\<open>'h'\<close>. Row and column are integers (the board's buttons and the
  oracle's response schema both give integers).
\<close>

datatype jsval = Undefined | Null | Num int | Str string

datatype move = Move (mtype: jsval) (mr: int) (mc: int)

definition createInitialState :: "nat \<Rightarrow> nat \<Rightarrow> gameState" where
  "createInitialState rows' cols' =
     \<lparr> rows = rows',
       cols = cols',
       horizontalLines = replicate (rows' + 1) (replicate cols' False),
       verticalLines = replicate rows' (replicate (cols' + 1) False),
       squares = replicate rows' (replicate cols' None),
       currentPlayer = PLAYER_1,
       scores = (\<lambda>p. 0),
       isGameOver = False,
       moveCount = 0 \<rparr>"

text \<open>
  \<^verbatim>\<open>a[r][c]\<close>: inside the arrays the read gives the cell. Outside them JavaScript reads
  \<^verbatim>\<open>undefined\<close> (column past the row's end) or throws a TypeError (no such row); the
  model answers \<open>None\<close> in both cases, and the functions below that need the cell stop
  with a fault. Only \<open>fetchAiMove\<close> tests the read itself, and there \<open>None\<close> is exactly
  the failing test \<^verbatim>\<open>lines[r] && lines[r][c] === false\<close>.
\<close>

definition cell :: "'a list list \<Rightarrow> int \<Rightarrow> int \<Rightarrow> 'a option" where
  "cell a r c =
     (if 0 \<le> r \<and> r < int (length a) \<and> 0 \<le> c \<and> c < int (length (a ! nat r))
      then Some (a ! nat r ! nat c) else None)"

text \<open>\<^verbatim>\<open>a[r][c] = v\<close>; every use follows a successful read of the same cell.\<close>

definition setCell :: "'a list list \<Rightarrow> int \<Rightarrow> int \<Rightarrow> 'a \<Rightarrow> 'a list list" where
  "setCell a r c v = a[nat r := (a ! nat r)[nat c := v]]"

section \<open>Square tests\<close>

definition checkSquareCompletion :: "gameState \<Rightarrow> int \<Rightarrow> int \<Rightarrow> bool option" where
  "checkSquareCompletion gs r c =
     (if r < 0 \<or> r \<ge> int (rows gs) \<or> c < 0 \<or> c \<ge> int (cols gs) then Some False
      else do {
        owner \<leftarrow> cell (squares gs) r c;
        if owner \<noteq> None then Some False
        else do {
          top \<leftarrow> cell (horizontalLines gs) r c;
          bottom \<leftarrow> cell (horizontalLines gs) (r + 1) c;
          left \<leftarrow> cell (verticalLines gs) r c;
          right \<leftarrow> cell (verticalLines gs) r (c + 1);
          Some (top \<and> bottom \<and> left \<and> right)
        }
      })"

definition getSquareSideCount :: "gameState \<Rightarrow> int \<Rightarrow> int \<Rightarrow> int option" where
  "getSquareSideCount gs r c =
     (if r < 0 \<or> r \<ge> int (rows gs) \<or> c < 0 \<or> c \<ge> int (cols gs) then Some (- 1)
      else do {
        top \<leftarrow> cell (horizontalLines gs) r c;
        bottom \<leftarrow> cell (horizontalLines gs) (r + 1) c;
        left \<leftarrow> cell (verticalLines gs) r c;
        right \<leftarrow> cell (verticalLines gs) r (c + 1);
        Some ((if top then 1 else 0) + (if bottom then 1 else 0)
              + (if left then 1 else 0) + (if right then 1 else 0))
      })"

section \<open>The move engine\<close>

text \<open>
  A call of \<^verbatim>\<open>handleMove\<close> either returns early before any assignment (\<open>Rejected\<close>) or
  runs to its end; \<open>Accepted gs' ai\<close> carries the session after the call and whether
  the last statement started the computer's turn. \<^verbatim>\<open>render()\<close> writes to the page only.
  \<open>Fault\<close> marks an array access outside the arrays.
\<close>

datatype outcome = Fault | Rejected | Accepted gameState bool

text \<open>The body of the loop over \<^verbatim>\<open>squaresToCheck\<close>, when the test succeeds.\<close>

definition claimSquare :: "gameState \<Rightarrow> int \<Rightarrow> int \<Rightarrow> gameState" where
  "claimSquare gs sqR sqC =
     gs\<lparr> squares := setCell (squares gs) sqR sqC (Some (currentPlayer gs)),
         scores := (scores gs)(currentPlayer gs := scores gs (currentPlayer gs) + 1) \<rparr>"

fun checkSquares :: "(int \<times> int) list \<Rightarrow> gameState \<Rightarrow> bool \<Rightarrow> (gameState \<times> bool) option" where
  "checkSquares [] gs completedAny = Some (gs, completedAny)"
| "checkSquares ((sqR, sqC) # rest) gs completedAny =
     (case checkSquareCompletion gs sqR sqC of
        None \<Rightarrow> None
      | Some True \<Rightarrow> checkSquares rest (claimSquare gs sqR sqC) True
      | Some False \<Rightarrow> checkSquares rest gs completedAny)"

definition otherPlayer :: "player \<Rightarrow> player" where
  "otherPlayer p = (if p = PLAYER_1 then PLAYER_2 else PLAYER_1)"

definition allOwned :: "player option list list \<Rightarrow> bool" where
  "allOwned sq = list_all (\<lambda>row. list_all (\<lambda>s. s \<noteq> None) row) sq"

text \<open>\<^verbatim>\<open>lines[r][c] = true; gameState.moveCount++;\<close>\<close>

definition markLine :: "gameState \<Rightarrow> bool \<Rightarrow> int \<Rightarrow> int \<Rightarrow> gameState" where
  "markLine gs isH r c =
     (let lines = (if isH then horizontalLines gs else verticalLines gs);
          lines' = setCell lines r c True;
          gs1 = (if isH then gs\<lparr>horizontalLines := lines'\<rparr> else gs\<lparr>verticalLines := lines'\<rparr>)
      in gs1\<lparr>moveCount := moveCount gs1 + 1\<rparr>)"

text \<open>Everything after the early returns, shared by the two variants of \<^verbatim>\<open>handleMove\<close>.\<close>

definition placeLine :: "bool \<Rightarrow> gameState \<Rightarrow> bool \<Rightarrow> int \<Rightarrow> int \<Rightarrow> outcome" where
  "placeLine isAiThinking gs isH r c =
     (let gs2 = markLine gs isH r c;
          squaresToCheck = (if isH then [(r - 1, c), (r, c)] else [(r, c - 1), (r, c)])
      in case checkSquares squaresToCheck gs2 False of
           None \<Rightarrow> Fault
         | Some (gs3, completedAny) \<Rightarrow>
             let gs4 = (if \<not> completedAny
                        then gs3\<lparr>currentPlayer := otherPlayer (currentPlayer gs3)\<rparr> else gs3);
                 gs5 = gs4\<lparr>isGameOver := allOwned (squares gs4)\<rparr>
             in Accepted gs5 (currentPlayer gs5 = PLAYER_2 \<and> \<not> isGameOver gs5 \<and> \<not> isAiThinking))"

text \<open>\<^verbatim>\<open>handleMove\<close> of \<^verbatim>\<open>src/index.js\<close>.\<close>

definition handleMove :: "bool \<Rightarrow> gameState \<Rightarrow> jsval \<Rightarrow> int \<Rightarrow> int \<Rightarrow> outcome" where
  "handleMove isAiThinking gs ty r c =
     (if isGameOver gs then Rejected
      else
        let isH = (ty = Str ''h'');
            lines = (if isH then horizontalLines gs else verticalLines gs)
        in if isH \<and> (r < 0 \<or> r > int (rows gs) \<or> c < 0 \<or> c \<ge> int (cols gs)) then Rejected
           else if \<not> isH \<and> (r < 0 \<or> r \<ge> int (rows gs) \<or> c < 0 \<or> c > int (cols gs)) then Rejected
           else case cell lines r c of
                  None \<Rightarrow> Fault
                | Some True \<Rightarrow> Rejected
                | Some False \<Rightarrow> placeLine isAiThinking gs isH r c)"

text \<open>\<^verbatim>\<open>handleMove\<close> of \<^verbatim>\<open>src/unnamed/part_000\<close>: one more early return.\<close>

definition handleMove_part_000 :: "bool \<Rightarrow> gameState \<Rightarrow> jsval \<Rightarrow> int \<Rightarrow> int \<Rightarrow> outcome" where
  "handleMove_part_000 isAiThinking gs ty r c =
     (if isGameOver gs then Rejected
      else if isAiThinking \<and> currentPlayer gs = PLAYER_1 then Rejected
      else
        let isH = (ty = Str ''h'');
            lines = (if isH then horizontalLines gs else verticalLines gs)
        in if isH \<and> (r < 0 \<or> r > int (rows gs) \<or> c < 0 \<or> c \<ge> int (cols gs)) then Rejected
           else if \<not> isH \<and> (r < 0 \<or> r \<ge> int (rows gs) \<or> c < 0 \<or> c > int (cols gs)) then Rejected
           else case cell lines r c of
                  None \<Rightarrow> Fault
                | Some True \<Rightarrow> Rejected
                | Some False \<Rightarrow> placeLine isAiThinking gs isH r c)"

text \<open>The session after a call: a rejected call has assigned nothing.\<close>

definition sessionAfter :: "gameState \<Rightarrow> outcome \<Rightarrow> gameState" where
  "sessionAfter gs out = (case out of Accepted gs' ai \<Rightarrow> gs' | _ \<Rightarrow> gs)"

section \<open>The board's buttons\<close>





text \<open>The two squares \<^verbatim>\<open>squaresToCheck\<close> names for an edge (the same list as \<^verbatim>\<open>squares\<close> in \<^verbatim>\<open>triggerAi\<close>).\<close>

definition adjacentSquares :: "bool \<Rightarrow> int \<Rightarrow> int \<Rightarrow> (int \<times> int) list" where
  "adjacentSquares isH r c = (if isH then [(r - 1, c), (r, c)] else [(r, c - 1), (r, c)])"

section \<open>The computer's turn\<close>

text \<open>
  The two nested loops that list the unclaimed edges, horizontal ones first, each row by
  row. They open \<^verbatim>\<open>fetchAiMove\<close> (as \<^verbatim>\<open>availableMoves\<close>) and the fallback of \<^verbatim>\<open>triggerAi\<close>
  (as \<^verbatim>\<open>moves\<close>), in both files. \<open>None\<close> is a fault of an array read.
\<close>

fun collectFree :: "string \<Rightarrow> bool list list \<Rightarrow> (int \<times> int) list \<Rightarrow> move list option" where
  "collectFree t lines [] = Some []"
| "collectFree t lines ((r, c) # rest) = do {
     b \<leftarrow> cell lines r c;
     ms \<leftarrow> collectFree t lines rest;
     Some (if \<not> b then Move (Str t) r c # ms else ms)
   }"

definition hCoords :: "gameState \<Rightarrow> (int \<times> int) list" where
  "hCoords gs = List.product (map int [0..<rows gs + 1]) (map int [0..<cols gs])"

definition vCoords :: "gameState \<Rightarrow> (int \<times> int) list" where
  "vCoords gs = List.product (map int [0..<rows gs]) (map int [0..<cols gs + 1])"

definition availableMoves :: "gameState \<Rightarrow> move list option" where
  "availableMoves gs = do {
     hs \<leftarrow> collectFree ''h'' (horizontalLines gs) (hCoords gs);
     vs \<leftarrow> collectFree ''v'' (verticalLines gs) (vCoords gs);
     Some (hs @ vs)
   }"

text \<open>\<^verbatim>\<open>xs[i]\<close> where \<^verbatim>\<open>undefined\<close> is then tested by \<^verbatim>\<open>if (move)\<close>.\<close>

definition nthOpt :: "'a list \<Rightarrow> nat \<Rightarrow> 'a option" where
  "nthOpt xs i = (if i < length xs then Some (xs ! i) else None)"

text \<open>
  The local fallback of \<^verbatim>\<open>triggerAi\<close> in src/index.js. Step 1 is the loop with the two
  \<^verbatim>\<open>break\<close>s: the first listed move with an adjacent square of side count 3. Step 2
  filters the moves all of whose adjacent squares have a side count below 2 (\<^verbatim>\<open>every\<close>
  stops at the first square that fails) and picks one at the index
  \<^verbatim>\<open>Math.floor(Math.random() * safeMoves.length)\<close>, here the argument \<open>rnd\<close>; with no safe
  move it takes \<^verbatim>\<open>moves[0]\<close>.
\<close>

fun anyThreeSided :: "gameState \<Rightarrow> (int \<times> int) list \<Rightarrow> bool option" where
  "anyThreeSided gs [] = Some False"
| "anyThreeSided gs ((sqR, sqC) # rest) = do {
     n \<leftarrow> getSquareSideCount gs sqR sqC;
     if n = 3 then Some True else anyThreeSided gs rest
   }"

fun findCompleting :: "gameState \<Rightarrow> move list \<Rightarrow> move option option" where
  "findCompleting gs [] = Some None"
| "findCompleting gs (m # ms) = do {
     hit \<leftarrow> anyThreeSided gs (adjacentSquares (mtype m = Str ''h'') (mr m) (mc m));
     if hit then Some (Some m) else findCompleting gs ms
   }"

fun allBelowTwo :: "gameState \<Rightarrow> (int \<times> int) list \<Rightarrow> bool option" where
  "allBelowTwo gs [] = Some True"
| "allBelowTwo gs ((sqR, sqC) # rest) = do {
     n \<leftarrow> getSquareSideCount gs sqR sqC;
     if n < 2 then allBelowTwo gs rest else Some False
   }"

fun safeFilter :: "gameState \<Rightarrow> move list \<Rightarrow> move list option" where
  "safeFilter gs [] = Some []"
| "safeFilter gs (m # ms) = do {
     ok \<leftarrow> allBelowTwo gs (adjacentSquares (mtype m = Str ''h'') (mr m) (mc m));
     rest \<leftarrow> safeFilter gs ms;
     Some (if ok then m # rest else rest)
   }"

definition localFallback :: "gameState \<Rightarrow> nat \<Rightarrow> move option option" where
  "localFallback gs rnd = do {
     moves \<leftarrow> availableMoves gs;
     found \<leftarrow> findCompleting gs moves;
     case found of
       Some m \<Rightarrow> Some (Some m)
     | None \<Rightarrow> do {
         safeMoves \<leftarrow> safeFilter gs moves;
         Some (if length safeMoves > 0 then nthOpt safeMoves rnd else nthOpt moves 0)
       }
   }"

text \<open>
  The oracle: the remote call either fails (transport error, unparsable text) or gives
  a move object. \<open>fetched\<close> is how \<^verbatim>\<open>fetchAiMove\<close> ends: it returns a move or \<^verbatim>\<open>null\<close>,
  it throws, or an array read faults.
\<close>

datatype reply = Failed | Replied move

datatype fetched = FetchFault | Threw | Returned "move option"

text \<open>
  \<^verbatim>\<open>fetchAiMove\<close> of src/index.js. \<open>hasKey\<close> says that \<^verbatim>\<open>process.env.API_KEY\<close> is set. The
  list \<^verbatim>\<open>squareStats\<close> only goes into the prompt text. Every exception inside \<^verbatim>\<open>try\<close>
  is caught and gives \<^verbatim>\<open>null\<close>.
\<close>

definition fetchAiMove :: "gameState \<Rightarrow> bool \<Rightarrow> reply \<Rightarrow> fetched" where
  "fetchAiMove gs hasKey answer =
     (if \<not> hasKey then Returned None
      else case availableMoves gs of
        None \<Rightarrow> FetchFault
      | Some available \<Rightarrow>
          if length available = 0 then Returned None
          else case answer of
            Failed \<Rightarrow> Returned None
          | Replied move \<Rightarrow>
              let lines = (if mtype move = Str ''h'' then horizontalLines gs else verticalLines gs)
              in if cell lines (mr move) (mc move) = Some False then Returned (Some move)
                 else Returned None)"

text \<open>
  \<^verbatim>\<open>fetchAiMove\<close> of src/unnamed/part_000. \<open>oracle n\<close> is the answer to the call made with
  \<^verbatim>\<open>retryCount = n\<close>; a failed call is retried once and then rethrown.
\<close>

function fetchAiMove_part_000 :: "gameState \<Rightarrow> (nat \<Rightarrow> reply) \<Rightarrow> nat \<Rightarrow> fetched" where
  "fetchAiMove_part_000 gs oracle retryCount =
     (case availableMoves gs of
        None \<Rightarrow> FetchFault
      | Some available \<Rightarrow>
          if length available = 0 then Returned None
          else case oracle retryCount of
            Replied move \<Rightarrow>
              let lines = (if mtype move = Str ''h'' then horizontalLines gs else verticalLines gs)
              in if cell lines (mr move) (mc move) = Some False then Returned (Some move)
                 else Returned (nthOpt available 0)
          | Failed \<Rightarrow>
              if retryCount < 1 then fetchAiMove_part_000 gs oracle (retryCount + 1)
              else Threw)"
  by pat_completeness auto
termination
  by (relation "measure (\<lambda>(gs, oracle, retryCount). 1 - retryCount)") auto

text \<open>
  \<^verbatim>\<open>triggerAi\<close> of src/index.js, from the state of the session when the oracle has
  answered. \<open>None\<close>: \<^verbatim>\<open>handleMove\<close> is not called. An exception of \<^verbatim>\<open>fetchAiMove\<close> is
  swallowed and leaves \<^verbatim>\<open>move\<close> null. The flag is false again when \<^verbatim>\<open>handleMove\<close> runs.
\<close>

definition triggerAi :: "bool \<Rightarrow> gameState \<Rightarrow> bool \<Rightarrow> reply \<Rightarrow> nat \<Rightarrow> outcome option" where
  "triggerAi isAiThinking gs hasKey answer rnd =
     (if isAiThinking then None
      else
        let move = (case fetchAiMove gs hasKey answer of Returned mv \<Rightarrow> mv | _ \<Rightarrow> None)
        in case (case move of Some m \<Rightarrow> Some (Some m) | None \<Rightarrow> localFallback gs rnd) of
             None \<Rightarrow> Some Fault
           | Some None \<Rightarrow> None
           | Some (Some m) \<Rightarrow> Some (handleMove False gs (mtype m) (mr m) (mc m)))"

section \<open>Observations on a session\<close>

text \<open>
  The extents \<^verbatim>\<open>createInitialState\<close> gives the three arrays. Every state reached by
  accepted moves has them (lemma \<open>reachable_shapeOk\<close>), and there no access faults.
\<close>

definition shapeOk :: "gameState \<Rightarrow> bool" where
  "shapeOk gs \<longleftrightarrow>
     length (horizontalLines gs) = rows gs + 1 \<and>
     list_all (\<lambda>row. length row = cols gs) (horizontalLines gs) \<and>
     length (verticalLines gs) = rows gs \<and>
     list_all (\<lambda>row. length row = cols gs + 1) (verticalLines gs) \<and>
     length (squares gs) = rows gs \<and>
     list_all (\<lambda>row. length row = cols gs) (squares gs)"

definition inGrid :: "gameState \<Rightarrow> int \<Rightarrow> int \<Rightarrow> bool" where
  "inGrid gs r c \<longleftrightarrow> 0 \<le> r \<and> r < int (rows gs) \<and> 0 \<le> c \<and> c < int (cols gs)"

definition hLine :: "gameState \<Rightarrow> int \<Rightarrow> int \<Rightarrow> bool" where
  "hLine gs r c = (horizontalLines gs ! nat r ! nat c)"

definition vLine :: "gameState \<Rightarrow> int \<Rightarrow> int \<Rightarrow> bool" where
  "vLine gs r c = (verticalLines gs ! nat r ! nat c)"

definition ownerAt :: "gameState \<Rightarrow> int \<Rightarrow> int \<Rightarrow> player option" where
  "ownerAt gs r c = (squares gs ! nat r ! nat c)"

definition fullAt :: "gameState \<Rightarrow> int \<Rightarrow> int \<Rightarrow> bool" where
  "fullAt gs r c \<longleftrightarrow> hLine gs r c \<and> hLine gs (r + 1) c \<and> vLine gs r c \<and> vLine gs r (c + 1)"

text \<open>The number of claimed sides of an in-grid square.\<close>

definition sidesAt :: "gameState \<Rightarrow> int \<Rightarrow> int \<Rightarrow> int" where
  "sidesAt gs r c =
     (if hLine gs r c then 1 else 0) + (if hLine gs (r + 1) c then 1 else 0)
     + (if vLine gs r c then 1 else 0) + (if vLine gs r (c + 1) then 1 else 0)"

text \<open>What the loop of \<^verbatim>\<open>handleMove\<close> tests: an unowned in-grid square with four sides.\<close>

definition completable :: "gameState \<Rightarrow> int \<Rightarrow> int \<Rightarrow> bool" where
  "completable gs r c \<longleftrightarrow> inGrid gs r c \<and> ownerAt gs r c = None \<and> fullAt gs r c"

text \<open>An edge inside the bounds \<^verbatim>\<open>handleMove\<close> tests that is still unclaimed.\<close>

definition edgeFree :: "gameState \<Rightarrow> bool \<Rightarrow> int \<Rightarrow> int \<Rightarrow> bool" where
  "edgeFree gs isH r c \<longleftrightarrow>
     (if isH then 0 \<le> r \<and> r \<le> int (rows gs) \<and> 0 \<le> c \<and> c < int (cols gs) \<and> \<not> hLine gs r c
      else 0 \<le> r \<and> r < int (rows gs) \<and> 0 \<le> c \<and> c \<le> int (cols gs) \<and> \<not> vLine gs r c)"

text \<open>
  The sessions the program can be in: it starts from \<^verbatim>\<open>createInitialState\<close> (the grid
  dimensions are positive; the program uses 4 by 4) and changes only by accepted moves.
\<close>

inductive reachable :: "gameState \<Rightarrow> bool" where
  init: "0 < n \<Longrightarrow> 0 < m \<Longrightarrow> reachable (createInitialState n m)"
| step: "reachable gs \<Longrightarrow> handleMove th gs ty r c = Accepted gs' ai \<Longrightarrow> reachable gs'"

text \<open>The three causes of rejection, as the bounds and the edge arrays state them.\<close>

definition outOfBounds :: "gameState \<Rightarrow> jsval \<Rightarrow> int \<Rightarrow> int \<Rightarrow> bool" where
  "outOfBounds gs ty r c \<longleftrightarrow>
     (if ty = Str ''h'' then \<not> (0 \<le> r \<and> r \<le> int (rows gs) \<and> 0 \<le> c \<and> c < int (cols gs))
      else \<not> (0 \<le> r \<and> r < int (rows gs) \<and> 0 \<le> c \<and> c \<le> int (cols gs)))"

definition edgeClaimed :: "gameState \<Rightarrow> jsval \<Rightarrow> int \<Rightarrow> int \<Rightarrow> bool" where
  "edgeClaimed gs ty r c \<longleftrightarrow>
     cell (if ty = Str ''h'' then horizontalLines gs else verticalLines gs) r c = Some True"

text \<open>Squares owned by a player, and squares owned at all.\<close>

definition ownedBy :: "player \<Rightarrow> player option list list \<Rightarrow> nat" where
  "ownedBy p sq = sum_list (map (\<lambda>row. length (filter (\<lambda>s. s = Some p) row)) sq)"

definition ownedCount :: "player option list list \<Rightarrow> nat" where
  "ownedCount sq = sum_list (map (\<lambda>row. length (filter (\<lambda>s. s \<noteq> None) row)) sq)"

text \<open>All square coordinates of the grid, row by row.\<close>

definition allSquares :: "gameState \<Rightarrow> (int \<times> int) list" where
  "allSquares gs = List.product (map int [0..<rows gs]) (map int [0..<cols gs])"

text \<open>
  A sequence of calls of \<^verbatim>\<open>handleMove\<close> (src/index.js), each on the session the previous
  call left: the session at the end, and the list of sessions passed through.
\<close>

fun play :: "gameState \<Rightarrow> move list \<Rightarrow> gameState" where
  "play gs [] = gs"
| "play gs (m # ms) = play (sessionAfter gs (handleMove False gs (mtype m) (mr m) (mc m))) ms"

fun trace :: "gameState \<Rightarrow> move list \<Rightarrow> gameState list" where
  "trace gs [] = [gs]"
| "trace gs (m # ms) =
     gs # trace (sessionAfter gs (handleMove False gs (mtype m) (mr m) (mc m))) ms"

text \<open>The four edges of square (0,0): top, left, right, bottom.\<close>

definition squareZeroMoves :: "move list" where
  "squareZeroMoves =
     [Move (Str ''h'') 0 0, Move (Str ''v'') 0 0, Move (Str ''v'') 0 1, Move (Str ''h'') 1 0]"

text \<open>Squares without an owner before a move and with one after it.\<close>

definition newlyOwned :: "gameState \<Rightarrow> gameState \<Rightarrow> (int \<times> int) list" where
  "newlyOwned gs gs' =
     filter (\<lambda>(r, c). ownerAt gs r c = None \<and> ownerAt gs' r c \<noteq> None) (allSquares gs)"

text \<open>Unowned squares whose side count a move takes from 3 to 4.\<close>

definition filledByMove :: "gameState \<Rightarrow> gameState \<Rightarrow> (int \<times> int) list" where
  "filledByMove gs gs' =
     filter (\<lambda>(r, c). getSquareSideCount gs r c = Some 3 \<and> getSquareSideCount gs' r c = Some 4
                      \<and> ownerAt gs r c = None) (allSquares gs)"

text \<open>Every square has an owner; the squares that have none.\<close>

definition everyOwned :: "gameState \<Rightarrow> bool" where
  "everyOwned gs = list_all (\<lambda>(r, c). ownerAt gs r c \<noteq> None) (allSquares gs)"

definition unowned :: "gameState \<Rightarrow> (int \<times> int) list" where
  "unowned gs = filter (\<lambda>(r, c). ownerAt gs r c = None) (allSquares gs)"

text \<open>How often \<^verbatim>\<open>isGameOver\<close> goes from false to true along a sequence of calls.\<close>

definition flips :: "gameState \<Rightarrow> move list \<Rightarrow> nat" where
  "flips gs ms =
     length (filter (\<lambda>(a, b). \<not> isGameOver a \<and> isGameOver b)
               (zip (trace gs ms) (tl (trace gs ms))))"

text \<open>
  The notions of the heuristic's contract, stated on the board and not on the tests the
  heuristic makes: a listed unclaimed edge; placing it takes some square from side count
  3 to 4; placing it takes some square to side count exactly 3; the four edges of a
  square.
\<close>

definition unclaimedEdge :: "gameState \<Rightarrow> move \<Rightarrow> bool" where
  "unclaimedEdge gs m \<longleftrightarrow>
     (mtype m = Str ''h'' \<or> mtype m = Str ''v'') \<and> edgeFree gs (mtype m = Str ''h'') (mr m) (mc m)"

definition afterPlacing :: "gameState \<Rightarrow> move \<Rightarrow> gameState" where
  "afterPlacing gs m = markLine gs (mtype m = Str ''h'') (mr m) (mc m)"

definition completesSquare :: "gameState \<Rightarrow> move \<Rightarrow> bool" where
  "completesSquare gs m \<longleftrightarrow>
     list_ex (\<lambda>(r, c). getSquareSideCount gs r c = Some 3
                      \<and> getSquareSideCount (afterPlacing gs m) r c = Some 4) (allSquares gs)"

text \<open>
  Side counts that go to exactly 3 are read off the two edge arrays (\<open>sidesAt\<close>), not
  through \<^verbatim>\<open>getSquareSideCount\<close>: between a session and a later one, and in particular
  between a session and the one with the edge marked.
\<close>

definition raisedToThree :: "gameState \<Rightarrow> gameState \<Rightarrow> bool" where
  "raisedToThree gs gs' \<longleftrightarrow>
     list_ex (\<lambda>(r, c). sidesAt gs r c \<noteq> 3 \<and> sidesAt gs' r c = 3) (allSquares gs)"

definition makesThirdSide :: "gameState \<Rightarrow> move \<Rightarrow> bool" where
  "makesThirdSide gs m \<longleftrightarrow> raisedToThree gs (afterPlacing gs m)"

definition noThreeSided :: "gameState \<Rightarrow> bool" where
  "noThreeSided gs = list_all (\<lambda>(r, c). sidesAt gs r c \<noteq> 3) (allSquares gs)"

text \<open>The board after two sides of square (0,0) are placed: top and left.\<close>

definition twoSideMoves :: "move list" where
  "twoSideMoves = [Move (Str ''h'') 0 0, Move (Str ''v'') 0 0]"

definition edgesOf :: "int \<Rightarrow> int \<Rightarrow> move list" where
  "edgesOf r c =
     [Move (Str ''h'') r c, Move (Str ''h'') (r + 1) c, Move (Str ''v'') r c, Move (Str ''v'') r (c + 1)]"

text \<open>The two tests of the fallback on a well-shaped board.\<close>

definition threeP :: "gameState \<Rightarrow> move \<Rightarrow> bool" where
  "threeP gs m \<longleftrightarrow> (\<exists>(r, c) \<in> set (adjacentSquares (mtype m = Str ''h'') (mr m) (mc m)).
                       inGrid gs r c \<and> sidesAt gs r c = 3)"

definition safeP :: "gameState \<Rightarrow> move \<Rightarrow> bool" where
  "safeP gs m \<longleftrightarrow> (\<forall>(r, c) \<in> set (adjacentSquares (mtype m = Str ''h'') (mr m) (mc m)).
                       inGrid gs r c \<longrightarrow> sidesAt gs r c < 2)"

section \<open>Array reads on a well-shaped session\<close>

lemma cell_h:
  "shapeOk gs \<Longrightarrow> 0 \<le> r \<Longrightarrow> r \<le> int (rows gs) \<Longrightarrow> 0 \<le> c \<Longrightarrow> c < int (cols gs) \<Longrightarrow>
   cell (horizontalLines gs) r c = Some (hLine gs r c)"
  by (auto simp: cell_def shapeOk_def hLine_def list_all_length)

lemma cell_v:
  "shapeOk gs \<Longrightarrow> 0 \<le> r \<Longrightarrow> r < int (rows gs) \<Longrightarrow> 0 \<le> c \<Longrightarrow> c \<le> int (cols gs) \<Longrightarrow>
   cell (verticalLines gs) r c = Some (vLine gs r c)"
  by (auto simp: cell_def shapeOk_def vLine_def list_all_length)

lemma cell_sq:
  "shapeOk gs \<Longrightarrow> inGrid gs r c \<Longrightarrow> cell (squares gs) r c = Some (ownerAt gs r c)"
  by (auto simp: cell_def shapeOk_def ownerAt_def inGrid_def list_all_length)

lemma csc_shape:
  "shapeOk gs \<Longrightarrow> checkSquareCompletion gs r c = Some (completable gs r c)"
  by (auto simp: checkSquareCompletion_def cell_h cell_v cell_sq inGrid_def fullAt_def
      completable_def)

lemma gssc_shape:
  "shapeOk gs \<Longrightarrow>
   getSquareSideCount gs r c = Some (if inGrid gs r c then sidesAt gs r c else - 1)"
  by (auto simp: getSquareSideCount_def cell_h cell_v inGrid_def sidesAt_def)

section \<open>The loop over the adjacent squares\<close>

lemma length_setCell [simp]: "length (setCell a r c v) = length a"
  by (simp add: setCell_def)

lemma rowlen_setCell:
  "list_all (\<lambda>row. length row = n) a \<Longrightarrow> list_all (\<lambda>row. length row = n) (setCell a r c v)"
proof (cases "nat r < length a")
  case True
  assume "list_all (\<lambda>row. length row = n) a"
  with True show ?thesis
    by (auto simp: setCell_def list_all_length nth_list_update)
next
  case False
  assume "list_all (\<lambda>row. length row = n) a"
  with False show ?thesis by (simp add: setCell_def list_update_beyond)
qed

lemma nth_setCell:
  "0 \<le> r \<Longrightarrow> nat r < length a \<Longrightarrow> 0 \<le> c \<Longrightarrow> nat c < length (a ! nat r) \<Longrightarrow>
   0 \<le> r' \<Longrightarrow> 0 \<le> c' \<Longrightarrow>
   setCell a r c v ! nat r' ! nat c' = (if r' = r \<and> c' = c then v else a ! nat r' ! nat c')"
  by (auto simp: setCell_def nth_list_update)

lemma claimSquare_fields [simp]:
  "rows (claimSquare gs r c) = rows gs"
  "cols (claimSquare gs r c) = cols gs"
  "horizontalLines (claimSquare gs r c) = horizontalLines gs"
  "verticalLines (claimSquare gs r c) = verticalLines gs"
  "currentPlayer (claimSquare gs r c) = currentPlayer gs"
  "moveCount (claimSquare gs r c) = moveCount gs"
  "isGameOver (claimSquare gs r c) = isGameOver gs"
  "scores (claimSquare gs r c) p =
     scores gs p + (if p = currentPlayer gs then 1 else 0)"
  by (simp_all add: claimSquare_def)

lemma claimSquare_shape: "shapeOk gs \<Longrightarrow> shapeOk (claimSquare gs r c)"
  by (simp add: shapeOk_def rowlen_setCell) (simp add: claimSquare_def rowlen_setCell)

lemma claimSquare_lines [simp]:
  "hLine (claimSquare gs r c) = hLine gs" "vLine (claimSquare gs r c) = vLine gs"
  "fullAt (claimSquare gs r c) = fullAt gs" "inGrid (claimSquare gs r c) = inGrid gs"
  by (auto simp: hLine_def vLine_def fullAt_def inGrid_def fun_eq_iff)

lemma claimSquare_owner:
  "shapeOk gs \<Longrightarrow> inGrid gs r c \<Longrightarrow> 0 \<le> r' \<Longrightarrow> 0 \<le> c' \<Longrightarrow>
   ownerAt (claimSquare gs r c) r' c' =
     (if r' = r \<and> c' = c then Some (currentPlayer gs) else ownerAt gs r' c')"
proof -
  assume s: "shapeOk gs" and g: "inGrid gs r c" and p: "0 \<le> r'" "0 \<le> c'"
  have 1: "0 \<le> r" "0 \<le> c" "nat r < length (squares gs)"
    using s g by (auto simp: shapeOk_def inGrid_def)
  then have 2: "nat c < length (squares gs ! nat r)"
    using s g by (auto simp: shapeOk_def inGrid_def list_all_length)
  show ?thesis
    unfolding ownerAt_def claimSquare_def
    by (simp add: nth_setCell [OF 1(1) 1(3) 1(2) 2 p])
qed

lemma claimSquare_completable:
  "shapeOk gs \<Longrightarrow> inGrid gs r c \<Longrightarrow>
   completable (claimSquare gs r c) r' c' = (completable gs r' c' \<and> (r', c') \<noteq> (r, c))"
  by (auto simp: completable_def claimSquare_owner inGrid_def split: if_splits)

lemma checkSquares_frame:
  "shapeOk gs \<Longrightarrow> \<exists>gs' b'. checkSquares sqs gs b = Some (gs', b') \<and> shapeOk gs' \<and>
     rows gs' = rows gs \<and> cols gs' = cols gs \<and>
     horizontalLines gs' = horizontalLines gs \<and> verticalLines gs' = verticalLines gs \<and>
     currentPlayer gs' = currentPlayer gs \<and> moveCount gs' = moveCount gs \<and>
     isGameOver gs' = isGameOver gs"
proof (induction sqs arbitrary: gs b)
  case Nil
  then show ?case by simp
next
  case (Cons sq sqs)
  obtain r c where sq: "sq = (r, c)" by (cases sq)
  show ?case
  proof (cases "completable gs r c")
    case True
    from Cons.IH [OF claimSquare_shape [OF Cons.prems], of r c True]
    show ?thesis using True Cons.prems by (simp add: sq csc_shape)
  next
    case False
    from Cons.IH [OF Cons.prems, of b]
    show ?thesis using False Cons.prems by (simp add: sq csc_shape)
  qed
qed

lemma checkSquares_flag:
  "shapeOk gs \<Longrightarrow> checkSquares sqs gs b = Some (gs', b') \<Longrightarrow>
   b' = (b \<or> (\<exists>(r, c) \<in> set sqs. completable gs r c))"
proof (induction sqs arbitrary: gs b)
  case Nil
  then show ?case by simp
next
  case (Cons sq sqs)
  obtain r c where sq: "sq = (r, c)" by (cases sq)
  show ?case
  proof (cases "completable gs r c")
    case True
    then have "checkSquares sqs (claimSquare gs r c) True = Some (gs', b')"
      using Cons.prems by (simp add: sq csc_shape)
    from Cons.IH [OF claimSquare_shape [OF Cons.prems(1)] this]
    show ?thesis using True by (simp add: sq)
  next
    case False
    then have "checkSquares sqs gs b = Some (gs', b')"
      using Cons.prems by (simp add: sq csc_shape)
    from Cons.IH [OF Cons.prems(1) this]
    show ?thesis using False by (simp add: sq)
  qed
qed

lemma checkSquares_owner:
  "shapeOk gs \<Longrightarrow> checkSquares sqs gs b = Some (gs', b') \<Longrightarrow> 0 \<le> r' \<Longrightarrow> 0 \<le> c' \<Longrightarrow>
   ownerAt gs' r' c' =
     (if (r', c') \<in> set sqs \<and> completable gs r' c' then Some (currentPlayer gs)
      else ownerAt gs r' c')"
proof (induction sqs arbitrary: gs b)
  case Nil
  then show ?case by simp
next
  case (Cons sq sqs)
  obtain r c where sq: "sq = (r, c)" by (cases sq)
  show ?case
  proof (cases "completable gs r c")
    case True
    then have "checkSquares sqs (claimSquare gs r c) True = Some (gs', b')"
      using Cons.prems by (simp add: sq csc_shape)
    from Cons.IH [OF claimSquare_shape [OF Cons.prems(1)] this Cons.prems(3,4)]
    show ?thesis using True Cons.prems(1)
      by (auto simp: sq claimSquare_completable claimSquare_owner completable_def inGrid_def
          Cons.prems(3,4))
  next
    case False
    then have "checkSquares sqs gs b = Some (gs', b')"
      using Cons.prems by (simp add: sq csc_shape)
    from Cons.IH [OF Cons.prems(1) this Cons.prems(3,4)]
    show ?thesis using False by (auto simp: sq)
  qed
qed

lemma checkSquares_scores:
  "shapeOk gs \<Longrightarrow> distinct sqs \<Longrightarrow> checkSquares sqs gs b = Some (gs', b') \<Longrightarrow>
   scores gs' p = scores gs p +
     (if p = currentPlayer gs then length (filter (\<lambda>(r, c). completable gs r c) sqs) else 0)"
proof (induction sqs arbitrary: gs b)
  case Nil
  then show ?case by simp
next
  case (Cons sq sqs)
  obtain r c where sq: "sq = (r, c)" by (cases sq)
  show ?case
  proof (cases "completable gs r c")
    case True
    then have run: "checkSquares sqs (claimSquare gs r c) True = Some (gs', b')"
      using Cons.prems by (simp add: sq csc_shape)
    have notin: "(r, c) \<notin> set sqs" and d: "distinct sqs" using Cons.prems(2) by (auto simp: sq)
    have ing: "inGrid gs r c" using True by (simp add: completable_def)
    have same: "filter (\<lambda>(r', c'). completable (claimSquare gs r c) r' c') sqs
                = filter (\<lambda>(r', c'). completable gs r' c') sqs"
      using notin
      by (intro filter_cong) (auto simp: claimSquare_completable [OF Cons.prems(1) ing])
    from Cons.IH [OF claimSquare_shape [OF Cons.prems(1)] d run]
    show ?thesis using True by (simp add: sq same)
  next
    case False
    then have "checkSquares sqs gs b = Some (gs', b')"
      using Cons.prems by (simp add: sq csc_shape)
    from Cons.IH [OF Cons.prems(1) _ this] Cons.prems(2)
    show ?thesis using False by (simp add: sq)
  qed
qed

section \<open>Marking an edge\<close>

lemma markLine_fields [simp]:
  "rows (markLine gs isH r c) = rows gs"
  "cols (markLine gs isH r c) = cols gs"
  "squares (markLine gs isH r c) = squares gs"
  "currentPlayer (markLine gs isH r c) = currentPlayer gs"
  "scores (markLine gs isH r c) = scores gs"
  "isGameOver (markLine gs isH r c) = isGameOver gs"
  "moveCount (markLine gs isH r c) = moveCount gs + 1"
  by (simp_all add: markLine_def Let_def)

lemma markLine_shape: "shapeOk gs \<Longrightarrow> shapeOk (markLine gs isH r c)"
  unfolding shapeOk_def by (simp add: markLine_def Let_def rowlen_setCell)

lemma markLine_grid [simp]:
  "inGrid (markLine gs isH r c) = inGrid gs" "ownerAt (markLine gs isH r c) = ownerAt gs"
  by (auto simp: inGrid_def ownerAt_def fun_eq_iff)

lemma markLine_hLine:
  assumes "shapeOk gs" "edgeFree gs isH r c" "0 \<le> r'" "0 \<le> c'"
  shows "hLine (markLine gs isH r c) r' c' = (hLine gs r' c' \<or> (isH \<and> r' = r \<and> c' = c))"
proof (cases isH)
  case True
  have 1: "0 \<le> r" "0 \<le> c" "nat r < length (horizontalLines gs)"
    using assms True by (auto simp: shapeOk_def edgeFree_def)
  then have 2: "nat c < length (horizontalLines gs ! nat r)"
    using assms True by (auto simp: shapeOk_def edgeFree_def list_all_length)
  show ?thesis using True
    by (auto simp: hLine_def markLine_def Let_def nth_setCell [OF 1(1) 1(3) 1(2) 2 assms(3,4)])
next
  case False
  then show ?thesis by (simp add: hLine_def markLine_def Let_def)
qed

lemma markLine_vLine:
  assumes "shapeOk gs" "edgeFree gs isH r c" "0 \<le> r'" "0 \<le> c'"
  shows "vLine (markLine gs isH r c) r' c' = (vLine gs r' c' \<or> (\<not> isH \<and> r' = r \<and> c' = c))"
proof (cases isH)
  case False
  have 1: "0 \<le> r" "0 \<le> c" "nat r < length (verticalLines gs)"
    using assms False by (auto simp: shapeOk_def edgeFree_def)
  then have 2: "nat c < length (verticalLines gs ! nat r)"
    using assms False by (auto simp: shapeOk_def edgeFree_def list_all_length)
  show ?thesis using False
    by (auto simp: vLine_def markLine_def Let_def nth_setCell [OF 1(1) 1(3) 1(2) 2 assms(3,4)])
next
  case True
  then show ?thesis by (simp add: vLine_def markLine_def Let_def)
qed

lemma markLine_sides:
  assumes "shapeOk gs" "edgeFree gs isH r c" "0 \<le> r'" "0 \<le> c'"
  shows "sidesAt (markLine gs isH r c) r' c' =
           sidesAt gs r' c' + (if (r', c') \<in> set (adjacentSquares isH r c) then 1 else 0)"
proof -
  have p: "0 \<le> r' + 1" "0 \<le> c' + 1" using assms by auto
  note h = markLine_hLine [OF assms(1,2)] and v = markLine_vLine [OF assms(1,2)]
  note eqs = h [OF assms(3,4)] h [OF p(1) assms(4)] v [OF assms(3,4)] v [OF assms(3) p(2)]
  show ?thesis
  proof (cases isH)
    case True
    have "\<not> hLine gs r c" using assms(2) True by (simp add: edgeFree_def)
    then show ?thesis
      unfolding sidesAt_def eqs using True
      by (auto simp: adjacentSquares_def)
  next
    case False
    have "\<not> vLine gs r c" using assms(2) False by (simp add: edgeFree_def)
    then show ?thesis
      unfolding sidesAt_def eqs using False
      by (auto simp: adjacentSquares_def)
  qed
qed

lemma sides_full: "fullAt gs r c \<longleftrightarrow> sidesAt gs r c = 4"
  by (auto simp: fullAt_def sidesAt_def)

lemma sides_range: "0 \<le> sidesAt gs r c \<and> sidesAt gs r c \<le> 4"
  by (auto simp: sidesAt_def)

lemma handleMove_shape:
  "shapeOk gs \<Longrightarrow>
   handleMove th gs ty r c =
     (if isGameOver gs \<or> \<not> edgeFree gs (ty = Str ''h'') r c then Rejected
      else placeLine th gs (ty = Str ''h'') r c)"
  by (auto simp: handleMove_def Let_def edgeFree_def cell_h cell_v)

lemma handleMove_part_000_shape:
  "shapeOk gs \<Longrightarrow>
   handleMove_part_000 th gs ty r c =
     (if isGameOver gs \<or> (th \<and> currentPlayer gs = PLAYER_1) \<or> \<not> edgeFree gs (ty = Str ''h'') r c
      then Rejected
      else placeLine th gs (ty = Str ''h'') r c)"
  by (auto simp: handleMove_part_000_def Let_def edgeFree_def cell_h cell_v)

section \<open>An accepted move\<close>

lemma adjacent_distinct: "distinct (adjacentSquares isH r c)"
  by (simp add: adjacentSquares_def)

lemma placeLine_spec:
  assumes s: "shapeOk gs"
  shows "\<exists>gs'. placeLine th gs isH r c =
            Accepted gs' (currentPlayer gs' = PLAYER_2 \<and> \<not> isGameOver gs' \<and> \<not> th) \<and>
          shapeOk gs' \<and> rows gs' = rows gs \<and> cols gs' = cols gs \<and>
          horizontalLines gs' = horizontalLines (markLine gs isH r c) \<and>
          verticalLines gs' = verticalLines (markLine gs isH r c) \<and>
          moveCount gs' = moveCount gs + 1 \<and>
          (\<forall>r' c'. 0 \<le> r' \<longrightarrow> 0 \<le> c' \<longrightarrow> ownerAt gs' r' c' =
             (if (r', c') \<in> set (adjacentSquares isH r c) \<and> completable (markLine gs isH r c) r' c'
              then Some (currentPlayer gs) else ownerAt gs r' c')) \<and>
          (\<forall>p. scores gs' p = scores gs p +
             (if p = currentPlayer gs
              then length (filter (\<lambda>(r', c'). completable (markLine gs isH r c) r' c')
                             (adjacentSquares isH r c))
              else 0)) \<and>
          currentPlayer gs' =
             (if \<exists>(r', c') \<in> set (adjacentSquares isH r c). completable (markLine gs isH r c) r' c'
              then currentPlayer gs else otherPlayer (currentPlayer gs)) \<and>
          isGameOver gs' = allOwned (squares gs')"
proof -
  let ?m = "markLine gs isH r c"
  let ?adj = "adjacentSquares isH r c"
  have sm: "shapeOk ?m" using s by (rule markLine_shape)
  from checkSquares_frame [OF sm, of ?adj False]
  obtain gs3 b where run: "checkSquares ?adj ?m False = Some (gs3, b)"
    and f: "shapeOk gs3" "rows gs3 = rows ?m" "cols gs3 = cols ?m"
      "horizontalLines gs3 = horizontalLines ?m" "verticalLines gs3 = verticalLines ?m"
      "currentPlayer gs3 = currentPlayer ?m" "moveCount gs3 = moveCount ?m"
    by blast
  have b: "b = (\<exists>(r', c') \<in> set ?adj. completable ?m r' c')"
    using checkSquares_flag [OF sm run] by simp
  have own: "\<And>r' c'. 0 \<le> r' \<Longrightarrow> 0 \<le> c' \<Longrightarrow> ownerAt gs3 r' c' =
      (if (r', c') \<in> set ?adj \<and> completable ?m r' c' then Some (currentPlayer gs)
       else ownerAt gs r' c')"
    using checkSquares_owner [OF sm run] by simp
  have sc: "\<And>p. scores gs3 p = scores gs p +
      (if p = currentPlayer gs then length (filter (\<lambda>(r', c'). completable ?m r' c') ?adj) else 0)"
    using checkSquares_scores [OF sm adjacent_distinct run] by simp
  define gs4 where "gs4 = (if \<not> b then gs3\<lparr>currentPlayer := otherPlayer (currentPlayer gs3)\<rparr> else gs3)"
  define gs5 where "gs5 = gs4\<lparr>isGameOver := allOwned (squares gs4)\<rparr>"
  have pl: "placeLine th gs isH r c =
      Accepted gs5 (currentPlayer gs5 = PLAYER_2 \<and> \<not> isGameOver gs5 \<and> \<not> th)"
    using run by (simp add: placeLine_def Let_def adjacentSquares_def gs4_def gs5_def)
  have sh5: "shapeOk gs5" using f(1) by (simp add: gs5_def gs4_def shapeOk_def)
  have own5: "ownerAt gs5 = ownerAt gs3" by (simp add: gs5_def gs4_def ownerAt_def fun_eq_iff)
  have sc5: "scores gs5 = scores gs3" by (simp add: gs5_def gs4_def)
  have cur5: "currentPlayer gs5 = (if b then currentPlayer gs else otherPlayer (currentPlayer gs))"
    using f(6) by (simp add: gs5_def gs4_def)
  have misc: "rows gs5 = rows gs" "cols gs5 = cols gs"
    "horizontalLines gs5 = horizontalLines ?m" "verticalLines gs5 = verticalLines ?m"
    "moveCount gs5 = moveCount gs + 1" "isGameOver gs5 = allOwned (squares gs5)"
    using f by (simp_all add: gs5_def gs4_def)
  show ?thesis
    apply (rule exI [of _ gs5])
    using pl sh5 misc own sc cur5 unfolding own5 sc5 b by simp
qed

section \<open>Reachable sessions keep the shape\<close>

lemma createInitialState_shape: "shapeOk (createInitialState n m)"
  by (auto simp: shapeOk_def createInitialState_def list_all_iff)

lemma handleMove_accepted:
  assumes "shapeOk gs" "handleMove th gs ty r c = Accepted gs' ai"
  shows "\<not> isGameOver gs" "edgeFree gs (ty = Str ''h'') r c"
    "placeLine th gs (ty = Str ''h'') r c = Accepted gs' ai"
  using assms by (auto simp: handleMove_shape split: if_splits)

lemma handleMove_keeps_shape:
  assumes "shapeOk gs" "handleMove th gs ty r c = Accepted gs' ai"
  shows "shapeOk gs'"
  using placeLine_spec [OF assms(1), of th "ty = Str ''h''" r c] handleMove_accepted(3) [OF assms]
  by auto

lemma reachable_shapeOk: "reachable gs \<Longrightarrow> shapeOk gs"
  by (induction rule: reachable.induct)
     (auto simp: createInitialState_shape intro: handleMove_keeps_shape)

lemma edgeFree_iff:
  "shapeOk gs \<Longrightarrow> edgeFree gs (ty = Str ''h'') r c \<longleftrightarrow> \<not> outOfBounds gs ty r c \<and> \<not> edgeClaimed gs ty r c"
  by (auto simp: edgeFree_def outOfBounds_def edgeClaimed_def cell_h cell_v)

lemma placeLine_not_rejected: "shapeOk gs \<Longrightarrow> placeLine th gs isH r c \<noteq> Rejected"
  "shapeOk gs \<Longrightarrow> placeLine th gs isH r c \<noteq> Fault"
  using placeLine_spec [of gs th isH r c] by auto

section \<open>Rejected moves\<close>

text \<open>
  Claim C1. On every reachable session a call of \<^verbatim>\<open>handleMove\<close> (src/index.js) is
  rejected exactly when the session is over, the coordinates are outside the bounds of
  the selected edge array, or the targeted edge is already true. It never faults there.
  A rejected call leaves the session as it was, and a call that is not rejected counts
  one more move.
\<close>

theorem handleMove_rejects_iff:
  assumes "reachable gs"
  shows "(handleMove th gs ty r c = Rejected \<longleftrightarrow>
            isGameOver gs \<or> outOfBounds gs ty r c \<or> edgeClaimed gs ty r c) \<and>
         handleMove th gs ty r c \<noteq> Fault \<and>
         (handleMove th gs ty r c = Rejected \<longrightarrow>
            sessionAfter gs (handleMove th gs ty r c) = gs) \<and>
         (handleMove th gs ty r c \<noteq> Rejected \<longrightarrow>
            moveCount (sessionAfter gs (handleMove th gs ty r c)) = moveCount gs + 1)"
proof -
  have s: "shapeOk gs" using assms by (rule reachable_shapeOk)
  note hm = handleMove_shape [OF s, of th ty r c]
  have 1: "handleMove th gs ty r c = Rejected \<longleftrightarrow>
            isGameOver gs \<or> outOfBounds gs ty r c \<or> edgeClaimed gs ty r c"
    using placeLine_not_rejected(1) [OF s] edgeFree_iff [OF s, of ty r c] by (auto simp: hm)
  have 2: "handleMove th gs ty r c \<noteq> Fault"
    using placeLine_not_rejected(2) [OF s] by (simp add: hm)
  have 3: "handleMove th gs ty r c = Rejected \<Longrightarrow>
            sessionAfter gs (handleMove th gs ty r c) = gs"
    by (simp add: sessionAfter_def)
  have 4: "handleMove th gs ty r c \<noteq> Rejected \<Longrightarrow>
            moveCount (sessionAfter gs (handleMove th gs ty r c)) = moveCount gs + 1"
    using placeLine_spec [OF s, of th "ty = Str ''h''" r c]
    by (auto simp: hm sessionAfter_def split: if_splits)
  show ?thesis using 1 2 3 4 by blast
qed

theorem handleMove_rejects_iff_witness:
  "reachable (createInitialState 2 2) \<and>
   handleMove False (createInitialState 2 2) (Str ''h'') 3 0 = Rejected \<and>
   handleMove False (createInitialState 2 2) (Str ''h'') 2 1 \<noteq> Rejected \<and>
   moveCount (sessionAfter (createInitialState 2 2)
                (handleMove False (createInitialState 2 2) (Str ''h'') 2 1)) = 1"
proof -
  have r: "reachable (createInitialState 2 2)" by (rule reachable.init) simp_all
  have a: "outOfBounds (createInitialState 2 2) (Str ''h'') 3 0"
    by (simp add: outOfBounds_def createInitialState_def)
  have b: "\<not> outOfBounds (createInitialState 2 2) (Str ''h'') 2 1"
    "\<not> edgeClaimed (createInitialState 2 2) (Str ''h'') 2 1"
    "\<not> isGameOver (createInitialState 2 2)" "moveCount (createInitialState 2 2) = 0"
    by (simp_all add: outOfBounds_def edgeClaimed_def createInitialState_def cell_def
        nth_replicate)
  show ?thesis
    using r a b handleMove_rejects_iff [OF r, of False "Str ''h''" 3 0]
      handleMove_rejects_iff [OF r, of False "Str ''h''" 2 1]
    by simp
qed

lemma sessionAfter_reachable:
  "reachable gs \<Longrightarrow> reachable (sessionAfter gs (handleMove th gs ty r c))"
  by (cases "handleMove th gs ty r c") (auto simp: sessionAfter_def intro: reachable.step)

lemma play_reachable: "reachable gs \<Longrightarrow> reachable (play gs ms)"
  by (induction ms arbitrary: gs) (auto intro: sessionAfter_reachable)

lemma part_000_accepted_same:
  "handleMove_part_000 th gs ty r c = Accepted gs' ai \<Longrightarrow> handleMove th gs ty r c = Accepted gs' ai"
  by (auto simp: handleMove_part_000_def handleMove_def split: if_splits)

lemma part_000_keeps_reachable:
  "reachable gs \<Longrightarrow> handleMove_part_000 th gs ty r c = Accepted gs' ai \<Longrightarrow> reachable gs'"
  by (blast intro: reachable.step part_000_accepted_same)

lemma vertical_accepted:
  assumes s: "shapeOk gs" and t: "ty \<noteq> Str ''h''" and a: "handleMove th gs ty r c = Accepted gs' ai"
  shows "verticalLines gs' = setCell (verticalLines gs) r c True"
    "horizontalLines gs' = horizontalLines gs"
    "cell (verticalLines gs') r c = Some True"
    "moveCount gs' = moveCount gs + 1"
proof -
  have e: "edgeFree gs False r c" and p: "placeLine th gs False r c = Accepted gs' ai"
    using handleMove_accepted(2,3) [OF s a] t by simp_all
  from placeLine_spec [OF s, of th False r c] p
  have sh: "shapeOk gs'" and rc: "rows gs' = rows gs" "cols gs' = cols gs"
    and hl: "horizontalLines gs' = horizontalLines (markLine gs False r c)"
    and vl: "verticalLines gs' = verticalLines (markLine gs False r c)"
    and mv: "moveCount gs' = moveCount gs + 1"
    by auto
  show "verticalLines gs' = setCell (verticalLines gs) r c True"
    by (simp add: vl markLine_def Let_def)
  show "horizontalLines gs' = horizontalLines gs" by (simp add: hl markLine_def Let_def)
  show "moveCount gs' = moveCount gs + 1" by (rule mv)
  have b: "0 \<le> r" "r < int (rows gs)" "0 \<le> c" "c \<le> int (cols gs)"
    using e by (simp_all add: edgeFree_def)
  have "vLine gs' r c = vLine (markLine gs False r c) r c" by (simp add: vLine_def vl)
  then have "vLine gs' r c" by (simp add: markLine_vLine [OF s e b(1,3)])
  then show "cell (verticalLines gs') r c = Some True"
    using cell_v [OF sh, of r c] b by (simp add: rc)
qed

text \<open>
  Claim C10. A \<^verbatim>\<open>type\<close> other than \<^verbatim>\<open>'h'\<close> (for instance \<^verbatim>\<open>'x'\<close> or \<^verbatim>\<open>undefined\<close>) is handled
  as \<^verbatim>\<open>'v'\<close> is, in both variants of \<^verbatim>\<open>handleMove\<close>. On a reachable session the call is
  rejected exactly when the session is over, the coordinates are outside the vertical
  bounds or the vertical edge is already true (and, in src/unnamed/part_000, when its
  thinking guard applies); there is no rejection of its own for the type. Otherwise the
  move is accepted: the vertical edge at the coordinates is set, no horizontal edge
  changes, and the move is counted.
\<close>

theorem unrecognized_type_is_vertical:
  assumes "ty \<noteq> Str ''h''" "reachable gs"
  shows "handleMove th gs ty r c = handleMove th gs (Str ''v'') r c \<and>
         handleMove_part_000 th gs ty r c = handleMove_part_000 th gs (Str ''v'') r c \<and>
         (handleMove th gs ty r c = Rejected \<longleftrightarrow>
            isGameOver gs
            \<or> \<not> (0 \<le> r \<and> r < int (rows gs) \<and> 0 \<le> c \<and> c \<le> int (cols gs))
            \<or> cell (verticalLines gs) r c = Some True) \<and>
         (handleMove_part_000 th gs ty r c = Rejected \<longleftrightarrow>
            isGameOver gs \<or> (th \<and> currentPlayer gs = PLAYER_1)
            \<or> \<not> (0 \<le> r \<and> r < int (rows gs) \<and> 0 \<le> c \<and> c \<le> int (cols gs))
            \<or> cell (verticalLines gs) r c = Some True) \<and>
         handleMove th gs ty r c \<noteq> Fault \<and> handleMove_part_000 th gs ty r c \<noteq> Fault \<and>
         (\<forall>gs' ai. handleMove th gs ty r c = Accepted gs' ai
                    \<or> handleMove_part_000 th gs ty r c = Accepted gs' ai \<longrightarrow>
            verticalLines gs' = setCell (verticalLines gs) r c True \<and>
            cell (verticalLines gs') r c = Some True \<and>
            horizontalLines gs' = horizontalLines gs \<and>
            moveCount gs' = moveCount gs + 1)"
proof -
  have s: "shapeOk gs" using assms(2) by (rule reachable_shapeOk)
  have 1: "handleMove th gs ty r c = handleMove th gs (Str ''v'') r c"
    using assms(1) by (simp add: handleMove_def)
  have 2: "handleMove_part_000 th gs ty r c = handleMove_part_000 th gs (Str ''v'') r c"
    using assms(1) by (simp add: handleMove_part_000_def)
  have free: "edgeFree gs False r c \<longleftrightarrow>
      (0 \<le> r \<and> r < int (rows gs) \<and> 0 \<le> c \<and> c \<le> int (cols gs))
      \<and> cell (verticalLines gs) r c \<noteq> Some True"
    using cell_v [OF s, of r c] by (auto simp: edgeFree_def cell_def)
  note nr = placeLine_not_rejected [OF s, of th False r c]
  have 3: "handleMove th gs ty r c = Rejected \<longleftrightarrow>
            isGameOver gs
            \<or> \<not> (0 \<le> r \<and> r < int (rows gs) \<and> 0 \<le> c \<and> c \<le> int (cols gs))
            \<or> cell (verticalLines gs) r c = Some True"
    using assms(1) nr(1) free by (auto simp: handleMove_shape [OF s])
  have 4: "handleMove_part_000 th gs ty r c = Rejected \<longleftrightarrow>
            isGameOver gs \<or> (th \<and> currentPlayer gs = PLAYER_1)
            \<or> \<not> (0 \<le> r \<and> r < int (rows gs) \<and> 0 \<le> c \<and> c \<le> int (cols gs))
            \<or> cell (verticalLines gs) r c = Some True"
    using assms(1) nr(1) free by (auto simp: handleMove_part_000_shape [OF s])
  have 5: "handleMove th gs ty r c \<noteq> Fault"
    using assms(1) nr(2) by (simp add: handleMove_shape [OF s])
  have 6: "handleMove_part_000 th gs ty r c \<noteq> Fault"
    using assms(1) nr(2) by (simp add: handleMove_part_000_shape [OF s])
  have 7: "\<forall>gs' ai. handleMove th gs ty r c = Accepted gs' ai
                    \<or> handleMove_part_000 th gs ty r c = Accepted gs' ai \<longrightarrow>
            verticalLines gs' = setCell (verticalLines gs) r c True \<and>
            cell (verticalLines gs') r c = Some True \<and>
            horizontalLines gs' = horizontalLines gs \<and>
            moveCount gs' = moveCount gs + 1"
  proof (intro allI impI)
    fix gs' ai
    assume "handleMove th gs ty r c = Accepted gs' ai
          \<or> handleMove_part_000 th gs ty r c = Accepted gs' ai"
    then have a: "handleMove th gs ty r c = Accepted gs' ai"
      using part_000_accepted_same by blast
    note v = vertical_accepted [OF s assms(1) a]
    from v(1) v(3) v(2) v(4)
    show "verticalLines gs' = setCell (verticalLines gs) r c True \<and>
            cell (verticalLines gs') r c = Some True \<and>
            horizontalLines gs' = horizontalLines gs \<and>
            moveCount gs' = moveCount gs + 1"
      by (intro conjI)
  qed
  from 1 2 3 4 5 6 7 show ?thesis by (intro conjI)
qed

theorem unrecognized_type_is_vertical_witness:
  "Undefined \<noteq> Str ''h'' \<and> Str ''x'' \<noteq> Str ''h'' \<and> reachable (createInitialState 2 2) \<and>
   (\<exists>gs' ai. handleMove False (createInitialState 2 2) Undefined 0 2 = Accepted gs' ai \<and>
      cell (verticalLines gs') 0 2 = Some True \<and>
      horizontalLines gs' = horizontalLines (createInitialState 2 2) \<and> moveCount gs' = 1) \<and>
   (\<exists>gs' ai. handleMove_part_000 False (createInitialState 2 2) (Str ''x'') 0 2 = Accepted gs' ai \<and>
      cell (verticalLines gs') 0 2 = Some True \<and>
      horizontalLines gs' = horizontalLines (createInitialState 2 2) \<and> moveCount gs' = 1) \<and>
   handleMove False (createInitialState 2 2) Undefined 2 1 = Rejected \<and>
   handleMove_part_000 False (createInitialState 2 2) (Str ''x'') 2 1 = Rejected \<and>
   handleMove False (createInitialState 2 2) (Str ''h'') 2 1 \<noteq> Rejected \<and>
   handleMove False (play (createInitialState 2 2) [Move (Str ''v'') 0 2]) Undefined 0 2 = Rejected \<and>
   handleMove_part_000 False (play (createInitialState 2 2) [Move (Str ''v'') 0 2]) (Str ''x'') 0 2
     = Rejected"
proof -
  let ?g = "createInitialState 2 2"
  let ?g1 = "play (createInitialState 2 2) [Move (Str ''v'') 0 2]"
  have r: "reachable ?g" by (rule reachable.init) simp_all
  have r1: "reachable ?g1" using r by (rule play_reachable)
  have x: "Undefined \<noteq> Str ''h''" "Str ''x'' \<noteq> Str ''h''" by simp_all
  have g: "\<not> isGameOver ?g" "rows ?g = 2" "cols ?g = 2" "moveCount ?g = 0"
    "cell (verticalLines ?g) 0 2 = Some False" "cell (verticalLines ?g) 2 1 = None"
    by code_simp+
  have g1: "cell (verticalLines ?g1) 0 2 = Some True" by code_simp
  have hh: "case handleMove False ?g (Str ''h'') 2 1 of Rejected \<Rightarrow> False | _ \<Rightarrow> True"
    by code_simp
  note a = unrecognized_type_is_vertical [OF x(1) r, of False 0 2]
  note b = unrecognized_type_is_vertical [OF x(2) r, of False 0 2]
  note c = unrecognized_type_is_vertical [OF x(1) r, of False 2 1]
  note d = unrecognized_type_is_vertical [OF x(2) r, of False 2 1]
  note e = unrecognized_type_is_vertical [OF x(1) r1, of False 0 2]
  note f = unrecognized_type_is_vertical [OF x(2) r1, of False 0 2]
  note a3 = a [THEN conjunct2, THEN conjunct2, THEN conjunct1]
  note a5 = a [THEN conjunct2, THEN conjunct2, THEN conjunct2, THEN conjunct2, THEN conjunct1]
  note a7 = a [THEN conjunct2, THEN conjunct2, THEN conjunct2, THEN conjunct2, THEN conjunct2,
      THEN conjunct2]
  note b4 = b [THEN conjunct2, THEN conjunct2, THEN conjunct2, THEN conjunct1]
  note b6 = b [THEN conjunct2, THEN conjunct2, THEN conjunct2, THEN conjunct2, THEN conjunct2,
      THEN conjunct1]
  note b7 = b [THEN conjunct2, THEN conjunct2, THEN conjunct2, THEN conjunct2, THEN conjunct2,
      THEN conjunct2]
  note c3 = c [THEN conjunct2, THEN conjunct2, THEN conjunct1]
  note d4 = d [THEN conjunct2, THEN conjunct2, THEN conjunct2, THEN conjunct1]
  note e3 = e [THEN conjunct2, THEN conjunct2, THEN conjunct1]
  note f4 = f [THEN conjunct2, THEN conjunct2, THEN conjunct2, THEN conjunct1]
  have 1: "\<exists>gs' ai. handleMove False ?g Undefined 0 2 = Accepted gs' ai \<and>
      cell (verticalLines gs') 0 2 = Some True \<and>
      horizontalLines gs' = horizontalLines ?g \<and> moveCount gs' = 1"
  proof (cases "handleMove False ?g Undefined 0 2")
    case Fault
    then show ?thesis using a5 by simp
  next
    case Rejected
    then show ?thesis using a3 g by simp
  next
    case (Accepted gs' ai)
    then have "cell (verticalLines gs') 0 2 = Some True"
      "horizontalLines gs' = horizontalLines ?g" "moveCount gs' = moveCount ?g + 1"
      using a7 by blast+
    then show ?thesis using Accepted g(4) by simp
  qed
  have 2: "\<exists>gs' ai. handleMove_part_000 False ?g (Str ''x'') 0 2 = Accepted gs' ai \<and>
      cell (verticalLines gs') 0 2 = Some True \<and>
      horizontalLines gs' = horizontalLines ?g \<and> moveCount gs' = 1"
  proof (cases "handleMove_part_000 False ?g (Str ''x'') 0 2")
    case Fault
    then show ?thesis using b6 by simp
  next
    case Rejected
    then show ?thesis using b4 g by simp
  next
    case (Accepted gs' ai)
    then have "cell (verticalLines gs') 0 2 = Some True"
      "horizontalLines gs' = horizontalLines ?g" "moveCount gs' = moveCount ?g + 1"
      using b7 by blast+
    then show ?thesis using Accepted g(4) by simp
  qed
  have 3: "handleMove False ?g Undefined 2 1 = Rejected"
    "handleMove_part_000 False ?g (Str ''x'') 2 1 = Rejected"
    using c3 d4 g(2,3) by simp_all
  have 4: "handleMove False ?g (Str ''h'') 2 1 \<noteq> Rejected" using hh by auto
  have 5: "handleMove False ?g1 Undefined 0 2 = Rejected"
    "handleMove_part_000 False ?g1 (Str ''x'') 0 2 = Rejected"
    using e3 f4 g1 by simp_all
  from x r 1 2 3 4 5 show ?thesis by (intro conjI)
qed

section \<open>Scores and owned squares\<close>

lemma count_update_None:
  "j < length row \<Longrightarrow> row ! j = None \<Longrightarrow>
   length (filter (\<lambda>s. s = Some p) (row[j := Some q]))
     = length (filter (\<lambda>s. s = Some p) row) + (if p = q then 1 else 0)"
  by (induction row arbitrary: j) (auto split: nat.splits)

lemma ownedBy_setCell:
  assumes "cell sq r c = Some None"
  shows "ownedBy p (setCell sq r c (Some q)) = ownedBy p sq + (if p = q then 1 else 0)"
proof -
  let ?f = "\<lambda>row. length (filter (\<lambda>s. s = Some p) row)"
  from assms have i: "nat r < length sq" and j: "nat c < length (sq ! nat r)"
    and n: "sq ! nat r ! nat c = None"
    by (auto simp: cell_def split: if_splits)
  have "ownedBy p (setCell sq r c (Some q))
          = sum_list ((map ?f sq)[nat r := ?f ((sq ! nat r)[nat c := Some q])])"
    by (simp add: ownedBy_def setCell_def map_update)
  also have "\<dots> = sum_list (map ?f sq) + ?f ((sq ! nat r)[nat c := Some q]) - ?f (sq ! nat r)"
    using i by (simp add: sum_list_update)
  also have "\<dots> = sum_list (map ?f sq) + (if p = q then 1 else 0)"
    by (simp add: count_update_None [OF j n])
  finally show ?thesis by (simp add: ownedBy_def)
qed

lemma owned_row_split:
  "length (filter (\<lambda>s. s \<noteq> None) row)
     = length (filter (\<lambda>s. s = Some PLAYER_1) row) + length (filter (\<lambda>s. s = Some PLAYER_2) row)"
proof (induction row)
  case Nil
  then show ?case by simp
next
  case (Cons s row)
  then show ?case
  proof (cases s)
    case None
    with Cons show ?thesis by simp
  next
    case (Some q)
    with Cons show ?thesis by (cases q) simp_all
  qed
qed

lemma ownedCount_split: "ownedCount sq = ownedBy PLAYER_1 sq + ownedBy PLAYER_2 sq"
  unfolding ownedCount_def ownedBy_def owned_row_split by (simp add: sum_list_addf)

lemma ownedBy_initial: "ownedBy p (squares (createInitialState n m)) = 0"
  by (simp add: ownedBy_def createInitialState_def sum_list_replicate)

lemma csc_True_cell:
  "checkSquareCompletion gs r c = Some True \<Longrightarrow> cell (squares gs) r c = Some None"
  by (auto simp: checkSquareCompletion_def split: if_splits bind_splits)

lemma claimSquare_scores_owned:
  assumes "\<forall>p. scores gs p = ownedBy p (squares gs)" "cell (squares gs) r c = Some None"
  shows "scores (claimSquare gs r c) p = ownedBy p (squares (claimSquare gs r c))"
  using assms ownedBy_setCell [OF assms(2), of p "currentPlayer gs"]
  by (simp add: claimSquare_def)

lemma checkSquares_scores_owned:
  "\<forall>p. scores gs p = ownedBy p (squares gs) \<Longrightarrow> checkSquares sqs gs b = Some (gs', b') \<Longrightarrow>
   scores gs' p = ownedBy p (squares gs')"
proof (induction sqs arbitrary: gs b)
  case Nil
  then show ?case by simp
next
  case (Cons sq sqs)
  obtain r c where sq: "sq = (r, c)" by (cases sq)
  from Cons.prems(2) obtain t where t: "checkSquareCompletion gs r c = Some t"
    by (auto simp: sq split: option.splits)
  show ?case
  proof (cases t)
    case True
    have inv: "\<forall>p. scores (claimSquare gs r c) p = ownedBy p (squares (claimSquare gs r c))"
    proof
      fix p
      have "checkSquareCompletion gs r c = Some True" using t True by simp
      from claimSquare_scores_owned [OF Cons.prems(1) csc_True_cell [OF this]]
      show "scores (claimSquare gs r c) p = ownedBy p (squares (claimSquare gs r c))" .
    qed
    have "checkSquares sqs (claimSquare gs r c) True = Some (gs', b')"
      using Cons.prems(2) t True by (simp add: sq)
    from Cons.IH [OF inv this] show ?thesis .
  next
    case False
    have "checkSquares sqs gs b = Some (gs', b')"
      using Cons.prems(2) t False by (simp add: sq)
    from Cons.IH [OF Cons.prems(1) this] show ?thesis .
  qed
qed

lemma placeLine_run:
  "placeLine th gs isH r c = Accepted gs' ai \<Longrightarrow>
   \<exists>gs3 b. checkSquares (adjacentSquares isH r c) (markLine gs isH r c) False = Some (gs3, b) \<and>
     squares gs' = squares gs3 \<and> scores gs' = scores gs3"
  by (auto simp: placeLine_def Let_def adjacentSquares_def split: option.splits if_splits)

lemma handleMove_scores_owned:
  assumes "shapeOk gs" "\<forall>p. scores gs p = ownedBy p (squares gs)"
    "handleMove th gs ty r c = Accepted gs' ai"
  shows "scores gs' p = ownedBy p (squares gs')"
proof -
  from placeLine_run [OF handleMove_accepted(3) [OF assms(1,3)]]
  obtain gs3 b where run: "checkSquares (adjacentSquares (ty = Str ''h'') r c)
      (markLine gs (ty = Str ''h'') r c) False = Some (gs3, b)"
    and eq: "squares gs' = squares gs3" "scores gs' = scores gs3" by blast
  have "\<forall>p. scores (markLine gs (ty = Str ''h'') r c) p
           = ownedBy p (squares (markLine gs (ty = Str ''h'') r c))"
    using assms(2) by simp
  from checkSquares_scores_owned [OF this run] show ?thesis by (simp add: eq)
qed

lemma reachable_scores_owned: "reachable gs \<Longrightarrow> \<forall>p. scores gs p = ownedBy p (squares gs)"
proof (induction rule: reachable.induct)
  case (init n m)
  show ?case by (simp add: ownedBy_initial) (simp add: createInitialState_def)
next
  case (step gs th ty r c gs' ai)
  show ?case
    using handleMove_scores_owned [OF reachable_shapeOk [OF step.hyps(1)] step.IH step.hyps(2)]
    by blast
qed

text \<open>
  Claim C4. In every session reachable from the initial one by accepted moves the two
  scores add up to the number of squares with a non-null owner, and each player's score
  is the number of squares that player owns.
\<close>

theorem scores_count_owned_squares:
  assumes "reachable gs"
  shows "scores gs PLAYER_1 + scores gs PLAYER_2 = ownedCount (squares gs) \<and>
         scores gs PLAYER_1 = ownedBy PLAYER_1 (squares gs) \<and>
         scores gs PLAYER_2 = ownedBy PLAYER_2 (squares gs)"
  using reachable_scores_owned [OF assms] by (simp add: ownedCount_split)

theorem scores_count_owned_squares_witness:
  "reachable (play (createInitialState 2 2) squareZeroMoves) \<and>
   scores (play (createInitialState 2 2) squareZeroMoves) PLAYER_1 = 0 \<and>
   scores (play (createInitialState 2 2) squareZeroMoves) PLAYER_2 = 1 \<and>
   ownedCount (squares (play (createInitialState 2 2) squareZeroMoves)) = 1 \<and>
   ownedBy PLAYER_2 (squares (play (createInitialState 2 2) squareZeroMoves)) = 1"
proof -
  have r: "reachable (play (createInitialState 2 2) squareZeroMoves)"
    by (rule play_reachable, rule reachable.init) simp_all
  have e: "scores (play (createInitialState 2 2) squareZeroMoves) PLAYER_2 = 1"
    "scores (play (createInitialState 2 2) squareZeroMoves) PLAYER_1 = 0"
    by code_simp+
  show ?thesis using r e scores_count_owned_squares [OF r] by simp
qed

section \<open>What an accepted move changes\<close>

lemma set_allSquares: "(r, c) \<in> set (allSquares gs) \<longleftrightarrow> inGrid gs r c"
  by (auto simp: allSquares_def inGrid_def image_iff intro: rev_bexI [of "nat r"] rev_bexI [of "nat c"])

lemma distinct_allSquares: "distinct (allSquares gs)"
  by (simp add: allSquares_def distinct_product distinct_map inj_on_def)

text \<open>What an accepted move does, seen through the observations.\<close>

lemma accepted_spec:
  assumes s: "shapeOk gs" and a: "handleMove th gs ty r c = Accepted gs' ai"
  shows "shapeOk gs'" "rows gs' = rows gs" "cols gs' = cols gs"
    "edgeFree gs (ty = Str ''h'') r c"
    "\<And>r' c'. 0 \<le> r' \<Longrightarrow> 0 \<le> c' \<Longrightarrow> sidesAt gs' r' c' =
        sidesAt gs r' c' + (if (r', c') \<in> set (adjacentSquares (ty = Str ''h'') r c) then 1 else 0)"
    "\<And>r' c'. inGrid gs r' c' \<Longrightarrow> ownerAt gs' r' c' =
        (if (r', c') \<in> set (adjacentSquares (ty = Str ''h'') r c) \<and> ownerAt gs r' c' = None
            \<and> sidesAt gs' r' c' = 4
         then Some (currentPlayer gs) else ownerAt gs r' c')"
    "\<And>p. scores gs' p = scores gs p +
        (if p = currentPlayer gs
         then length (filter (\<lambda>(r', c'). inGrid gs r' c' \<and> ownerAt gs r' c' = None \<and> sidesAt gs' r' c' = 4)
                        (adjacentSquares (ty = Str ''h'') r c))
         else 0)"
    "currentPlayer gs' =
        (if \<exists>(r', c') \<in> set (adjacentSquares (ty = Str ''h'') r c).
              inGrid gs r' c' \<and> ownerAt gs r' c' = None \<and> sidesAt gs' r' c' = 4
         then currentPlayer gs else otherPlayer (currentPlayer gs))"
    "isGameOver gs' = allOwned (squares gs')"
    "moveCount gs' = moveCount gs + 1"
proof -
  let ?isH = "ty = Str ''h''"
  let ?m = "markLine gs ?isH r c"
  note acc = handleMove_accepted [OF s a]
  from placeLine_spec [OF s, of th ?isH r c] acc(3)
  have sh: "shapeOk gs'" and rc: "rows gs' = rows gs" "cols gs' = cols gs"
    and hl: "horizontalLines gs' = horizontalLines ?m" and vl: "verticalLines gs' = verticalLines ?m"
    and mv: "moveCount gs' = moveCount gs + 1"
    and own: "\<And>r' c'. 0 \<le> r' \<Longrightarrow> 0 \<le> c' \<Longrightarrow> ownerAt gs' r' c' =
             (if (r', c') \<in> set (adjacentSquares ?isH r c) \<and> completable ?m r' c'
              then Some (currentPlayer gs) else ownerAt gs r' c')"
    and sc: "\<And>p. scores gs' p = scores gs p +
             (if p = currentPlayer gs
              then length (filter (\<lambda>(r', c'). completable ?m r' c') (adjacentSquares ?isH r c))
              else 0)"
    and cur: "currentPlayer gs' =
             (if \<exists>(r', c') \<in> set (adjacentSquares ?isH r c). completable ?m r' c'
              then currentPlayer gs else otherPlayer (currentPlayer gs))"
    and ov: "isGameOver gs' = allOwned (squares gs')"
    by auto
  have sides': "sidesAt gs' = sidesAt ?m"
    by (simp add: sidesAt_def hLine_def vLine_def hl vl fun_eq_iff)
  have comp: "completable ?m r' c' \<longleftrightarrow>
      inGrid gs r' c' \<and> ownerAt gs r' c' = None \<and> sidesAt gs' r' c' = 4" for r' c'
    by (simp add: completable_def sides_full sides')
  show "shapeOk gs'" "rows gs' = rows gs" "cols gs' = cols gs" "edgeFree gs ?isH r c"
    "isGameOver gs' = allOwned (squares gs')" "moveCount gs' = moveCount gs + 1"
    using sh rc acc(2) ov mv by auto
  show "sidesAt gs' r' c' =
        sidesAt gs r' c' + (if (r', c') \<in> set (adjacentSquares ?isH r c) then 1 else 0)"
    if "0 \<le> r'" "0 \<le> c'" for r' c'
    using markLine_sides [OF s acc(2) that] by (simp add: sides')
  show "ownerAt gs' r' c' =
        (if (r', c') \<in> set (adjacentSquares ?isH r c) \<and> ownerAt gs r' c' = None
            \<and> sidesAt gs' r' c' = 4
         then Some (currentPlayer gs) else ownerAt gs r' c')" if "inGrid gs r' c'" for r' c'
    using that own [of r' c'] by (auto simp: comp inGrid_def)
  show "scores gs' p = scores gs p +
        (if p = currentPlayer gs
         then length (filter (\<lambda>(r', c'). inGrid gs r' c' \<and> ownerAt gs r' c' = None \<and> sidesAt gs' r' c' = 4)
                        (adjacentSquares ?isH r c))
         else 0)" for p
  proof -
    have "(\<lambda>(r', c'). completable ?m r' c')
            = (\<lambda>(r', c'). inGrid gs r' c' \<and> ownerAt gs r' c' = None \<and> sidesAt gs' r' c' = 4)"
      by (simp add: comp fun_eq_iff)
    then show ?thesis using sc [of p] by simp
  qed
  show "currentPlayer gs' =
        (if \<exists>(r', c') \<in> set (adjacentSquares ?isH r c).
              inGrid gs r' c' \<and> ownerAt gs r' c' = None \<and> sidesAt gs' r' c' = 4
         then currentPlayer gs else otherPlayer (currentPlayer gs))"
    using cur by (simp add: comp)
qed

section \<open>Squares completed by a move\<close>

lemma accepted_newlyOwned:
  assumes s: "shapeOk gs" and a: "handleMove th gs ty r c = Accepted gs' ai"
  shows "(r', c') \<in> set (newlyOwned gs gs') \<longleftrightarrow>
           (r', c') \<in> set (adjacentSquares (ty = Str ''h'') r c) \<and>
           inGrid gs r' c' \<and> ownerAt gs r' c' = None \<and> sidesAt gs' r' c' = 4"
  using accepted_spec(6) [OF s a, of r' c']
  by (cases "inGrid gs r' c'") (auto simp: newlyOwned_def set_allSquares split: if_splits)

lemma accepted_filled:
  assumes s: "shapeOk gs" and a: "handleMove th gs ty r c = Accepted gs' ai"
  shows "(r', c') \<in> set (filledByMove gs gs') \<longleftrightarrow>
           (r', c') \<in> set (adjacentSquares (ty = Str ''h'') r c) \<and>
           inGrid gs r' c' \<and> ownerAt gs r' c' = None \<and> sidesAt gs' r' c' = 4"
proof (cases "inGrid gs r' c'")
  case True
  note sp = accepted_spec [OF s a]
  have g': "inGrid gs' r' c'" using True by (simp add: inGrid_def sp(2,3))
  have p: "0 \<le> r'" "0 \<le> c'" using True by (auto simp: inGrid_def)
  have c1: "getSquareSideCount gs r' c' = Some (sidesAt gs r' c')"
    using True by (simp add: gssc_shape [OF s])
  have c2: "getSquareSideCount gs' r' c' = Some (sidesAt gs' r' c')"
    using g' by (simp add: gssc_shape [OF sp(1)])
  have step: "sidesAt gs' r' c' = sidesAt gs r' c' +
      (if (r', c') \<in> set (adjacentSquares (ty = Str ''h'') r c) then 1 else 0)"
    by (rule sp(5) [OF p])
  have "(sidesAt gs r' c' = 3 \<and> sidesAt gs' r' c' = 4) \<longleftrightarrow>
        ((r', c') \<in> set (adjacentSquares (ty = Str ''h'') r c) \<and> sidesAt gs' r' c' = 4)"
    unfolding step by (simp split: if_splits)
  then show ?thesis
    using True unfolding filledByMove_def by (simp add: set_allSquares c1 c2) blast
next
  case False
  then show ?thesis by (simp add: filledByMove_def set_allSquares)
qed

lemma accepted_filled_length:
  assumes s: "shapeOk gs" and a: "handleMove th gs ty r c = Accepted gs' ai"
  shows "length (filledByMove gs gs') =
           length (filter (\<lambda>(r', c'). inGrid gs r' c' \<and> ownerAt gs r' c' = None \<and> sidesAt gs' r' c' = 4)
                     (adjacentSquares (ty = Str ''h'') r c))"
    and "length (newlyOwned gs gs') = length (filledByMove gs gs')"
    and "length (filledByMove gs gs') \<le> 2"
proof -
  let ?adj = "adjacentSquares (ty = Str ''h'') r c"
  let ?Q = "\<lambda>(r', c'). inGrid gs r' c' \<and> ownerAt gs r' c' = None \<and> sidesAt gs' r' c' = 4"
  have d: "distinct (filledByMove gs gs')" "distinct (newlyOwned gs gs')"
    by (simp_all add: filledByMove_def newlyOwned_def distinct_allSquares)
  have dq: "distinct (filter ?Q ?adj)" by (simp add: adjacent_distinct)
  have e1: "set (filledByMove gs gs') = set (filter ?Q ?adj)"
  proof (rule set_eqI)
    fix x :: "int \<times> int"
    obtain r' c' where x: "x = (r', c')" by (cases x)
    show "x \<in> set (filledByMove gs gs') \<longleftrightarrow> x \<in> set (filter ?Q ?adj)"
      unfolding x using accepted_filled [OF s a, of r' c'] by simp
  qed
  have e2: "set (newlyOwned gs gs') = set (filter ?Q ?adj)"
  proof (rule set_eqI)
    fix x :: "int \<times> int"
    obtain r' c' where x: "x = (r', c')" by (cases x)
    show "x \<in> set (newlyOwned gs gs') \<longleftrightarrow> x \<in> set (filter ?Q ?adj)"
      unfolding x using accepted_newlyOwned [OF s a, of r' c'] by simp
  qed
  have "length (filledByMove gs gs') = card (set (filledByMove gs gs'))"
    using d(1) by (simp add: distinct_card)
  also have "\<dots> = length (filter ?Q ?adj)"
    unfolding e1 by (rule distinct_card [OF dq])
  finally show 1: "length (filledByMove gs gs') = length (filter ?Q ?adj)" .
  have "length (newlyOwned gs gs') = card (set (newlyOwned gs gs'))"
    using d(2) by (simp add: distinct_card)
  also have "\<dots> = length (filter ?Q ?adj)"
    unfolding e2 by (rule distinct_card [OF dq])
  finally show "length (newlyOwned gs gs') = length (filledByMove gs gs')" using 1 by simp
  have "length (filter ?Q ?adj) \<le> length ?adj" by (rule length_filter_le)
  also have "\<dots> = 2" by (simp add: adjacentSquares_def)
  finally show "length (filledByMove gs gs') \<le> 2" using 1 by simp
qed

lemma otherPlayer_neq [simp]: "otherPlayer p \<noteq> p" "p \<noteq> otherPlayer p"
  by (cases p; simp add: otherPlayer_def)+

lemma accepted_sessionAfter:
  "(case out of Accepted g a \<Rightarrow> True | _ \<Rightarrow> False) \<Longrightarrow> \<exists>ai. out = Accepted (sessionAfter gs out) ai"
  by (cases out) (auto simp: sessionAfter_def)

section \<open>Turn and ownership after an accepted move\<close>

text \<open>
  Claim C2. After an accepted move the turn has passed to the other player exactly when
  the move completed no square (no square went from unowned to owned); when it completed
  one or two squares the player to move is the same as before. A move never completes
  more than two.
\<close>

theorem turn_passes_iff_no_square:
  assumes "reachable gs" "handleMove th gs ty r c = Accepted gs' ai"
  shows "(currentPlayer gs' = otherPlayer (currentPlayer gs) \<longleftrightarrow> length (newlyOwned gs gs') = 0) \<and>
         (length (newlyOwned gs gs') = 1 \<or> length (newlyOwned gs gs') = 2
            \<longrightarrow> currentPlayer gs' = currentPlayer gs) \<and>
         length (newlyOwned gs gs') \<le> 2"
proof -
  have s: "shapeOk gs" using assms(1) by (rule reachable_shapeOk)
  let ?adj = "adjacentSquares (ty = Str ''h'') r c"
  let ?Q = "\<lambda>(r', c'). inGrid gs r' c' \<and> ownerAt gs r' c' = None \<and> sidesAt gs' r' c' = 4"
  note len = accepted_filled_length [OF s assms(2)]
  have n: "length (newlyOwned gs gs') = length (filter ?Q ?adj)" using len(1,2) by simp
  have "(\<exists>x \<in> set ?adj. ?Q x) \<longleftrightarrow> length (filter ?Q ?adj) \<noteq> 0"
    by (auto simp: filter_empty_conv)
  then have cur: "currentPlayer gs' =
      (if length (newlyOwned gs gs') \<noteq> 0 then currentPlayer gs else otherPlayer (currentPlayer gs))"
    using accepted_spec(8) [OF s assms(2)] unfolding n by presburger
  have a: "currentPlayer gs' = otherPlayer (currentPlayer gs) \<longleftrightarrow> length (newlyOwned gs gs') = 0"
    by (simp add: cur)
  have b: "length (newlyOwned gs gs') = 1 \<or> length (newlyOwned gs gs') = 2
            \<longrightarrow> currentPlayer gs' = currentPlayer gs"
    by (auto simp: cur)
  have c: "length (newlyOwned gs gs') \<le> 2" using len(2,3) by simp
  from a b c show ?thesis by (intro conjI)
qed

theorem turn_passes_iff_no_square_witness:
  "reachable (play (createInitialState 2 2) (take 3 squareZeroMoves)) \<and>
   (\<exists>ai. handleMove False (play (createInitialState 2 2) (take 3 squareZeroMoves)) (Str ''h'') 1 0
           = Accepted (play (createInitialState 2 2) squareZeroMoves) ai) \<and>
   currentPlayer (play (createInitialState 2 2) (take 3 squareZeroMoves)) = PLAYER_2 \<and>
   currentPlayer (play (createInitialState 2 2) squareZeroMoves) = PLAYER_2 \<and>
   length (newlyOwned (play (createInitialState 2 2) (take 3 squareZeroMoves))
             (play (createInitialState 2 2) squareZeroMoves)) = 1"
proof -
  let ?g = "play (createInitialState 2 2) (take 3 squareZeroMoves)"
  let ?g' = "play (createInitialState 2 2) squareZeroMoves"
  have r: "reachable ?g" by (rule play_reachable, rule reachable.init) simp_all
  have "case handleMove False ?g (Str ''h'') 1 0 of Accepted g a \<Rightarrow> True | _ \<Rightarrow> False"
    by code_simp
  from accepted_sessionAfter [OF this, of ?g]
  obtain ai where "handleMove False ?g (Str ''h'') 1 0
      = Accepted (sessionAfter ?g (handleMove False ?g (Str ''h'') 1 0)) ai" ..
  moreover have "sessionAfter ?g (handleMove False ?g (Str ''h'') 1 0) = ?g'"
    by (simp add: squareZeroMoves_def)
  ultimately have a: "handleMove False ?g (Str ''h'') 1 0 = Accepted ?g' ai" by simp
  have e: "currentPlayer ?g = PLAYER_2" "currentPlayer ?g' = PLAYER_2" by code_simp+
  have n: "length (newlyOwned ?g ?g') = 1" by code_simp
  show ?thesis using r a e n turn_passes_iff_no_square [OF r a] by blast
qed

text \<open>
  Claim C3. After an accepted move every unowned square whose side count went from 3 to 4
  is owned by the player who moved, that player's score has grown by the number of these
  squares and the other score is unchanged; there are at most two such squares, all next
  to the placed edge, and the owner of every other square is as it was.
\<close>

theorem completed_squares_go_to_mover:
  assumes "reachable gs" "handleMove th gs ty r c = Accepted gs' ai"
  shows "(\<forall>(r', c') \<in> set (filledByMove gs gs'). ownerAt gs' r' c' = Some (currentPlayer gs)) \<and>
         scores gs' (currentPlayer gs) = scores gs (currentPlayer gs) + length (filledByMove gs gs') \<and>
         scores gs' (otherPlayer (currentPlayer gs)) = scores gs (otherPlayer (currentPlayer gs)) \<and>
         length (filledByMove gs gs') \<le> 2 \<and>
         set (filledByMove gs gs') \<subseteq> set (adjacentSquares (ty = Str ''h'') r c) \<and>
         (\<forall>(r', c') \<in> set (allSquares gs).
            (r', c') \<notin> set (filledByMove gs gs') \<longrightarrow> ownerAt gs' r' c' = ownerAt gs r' c')"
proof -
  have s: "shapeOk gs" using assms(1) by (rule reachable_shapeOk)
  note sp = accepted_spec [OF s assms(2)]
  note fl = accepted_filled [OF s assms(2)]
  note len = accepted_filled_length [OF s assms(2)]
  have 1: "\<forall>(r', c') \<in> set (filledByMove gs gs'). ownerAt gs' r' c' = Some (currentPlayer gs)"
  proof (clarify)
    fix r' c' assume "(r', c') \<in> set (filledByMove gs gs')"
    then have f: "(r', c') \<in> set (adjacentSquares (ty = Str ''h'') r c)" "inGrid gs r' c'"
      "ownerAt gs r' c' = None" "sidesAt gs' r' c' = 4"
      using fl [of r' c'] by simp_all
    show "ownerAt gs' r' c' = Some (currentPlayer gs)"
      using sp(6) [OF f(2)] f(1,3,4) by simp
  qed
  have 2: "scores gs' (currentPlayer gs) = scores gs (currentPlayer gs) + length (filledByMove gs gs')"
    using sp(7) [of "currentPlayer gs"] len(1) by simp
  have 3: "scores gs' (otherPlayer (currentPlayer gs)) = scores gs (otherPlayer (currentPlayer gs))"
    using sp(7) [of "otherPlayer (currentPlayer gs)"] by simp
  have 5: "set (filledByMove gs gs') \<subseteq> set (adjacentSquares (ty = Str ''h'') r c)"
  proof
    fix x assume x: "x \<in> set (filledByMove gs gs')"
    obtain r' c' where "x = (r', c')" by (cases x)
    then show "x \<in> set (adjacentSquares (ty = Str ''h'') r c)"
      using x fl [of r' c'] by simp
  qed
  have 6: "\<forall>(r', c') \<in> set (allSquares gs).
            (r', c') \<notin> set (filledByMove gs gs') \<longrightarrow> ownerAt gs' r' c' = ownerAt gs r' c'"
  proof (clarify)
    fix r' c' assume i: "(r', c') \<in> set (allSquares gs)"
      and n: "(r', c') \<notin> set (filledByMove gs gs')"
    have g: "inGrid gs r' c'" using i by (simp add: set_allSquares)
    show "ownerAt gs' r' c' = ownerAt gs r' c'"
      using sp(6) [OF g] n fl [of r' c'] g by (simp split: if_splits)
  qed
  from 1 2 3 len(3) 5 6 show ?thesis by (intro conjI)
qed

theorem completed_squares_go_to_mover_witness:
  "reachable (play (createInitialState 2 2) (take 3 squareZeroMoves)) \<and>
   (\<exists>ai. handleMove False (play (createInitialState 2 2) (take 3 squareZeroMoves)) (Str ''h'') 1 0
           = Accepted (play (createInitialState 2 2) squareZeroMoves) ai) \<and>
   filledByMove (play (createInitialState 2 2) (take 3 squareZeroMoves))
             (play (createInitialState 2 2) squareZeroMoves) = [(0, 0)] \<and>
   currentPlayer (play (createInitialState 2 2) (take 3 squareZeroMoves)) = PLAYER_2 \<and>
   ownerAt (play (createInitialState 2 2) squareZeroMoves) 0 0 = Some PLAYER_2 \<and>
   scores (play (createInitialState 2 2) squareZeroMoves) PLAYER_2 = 1"
proof -
  let ?g = "play (createInitialState 2 2) (take 3 squareZeroMoves)"
  let ?g' = "play (createInitialState 2 2) squareZeroMoves"
  have r: "reachable ?g" by (rule play_reachable, rule reachable.init) simp_all
  have "case handleMove False ?g (Str ''h'') 1 0 of Accepted g a \<Rightarrow> True | _ \<Rightarrow> False"
    by code_simp
  from accepted_sessionAfter [OF this, of ?g]
  obtain ai where "handleMove False ?g (Str ''h'') 1 0
      = Accepted (sessionAfter ?g (handleMove False ?g (Str ''h'') 1 0)) ai" ..
  moreover have "sessionAfter ?g (handleMove False ?g (Str ''h'') 1 0) = ?g'"
    by (simp add: squareZeroMoves_def)
  ultimately have a: "handleMove False ?g (Str ''h'') 1 0 = Accepted ?g' ai" by simp
  have e: "currentPlayer ?g = PLAYER_2" "scores ?g PLAYER_2 = 0" by code_simp+
  have n: "filledByMove ?g ?g' = [(0, 0)]" by code_simp
  show ?thesis using r a e n completed_squares_go_to_mover [OF r a] by auto
qed

section \<open>The end of the game\<close>

lemma everyOwned_iff: "everyOwned gs \<longleftrightarrow> (\<forall>r c. inGrid gs r c \<longrightarrow> ownerAt gs r c \<noteq> None)"
  unfolding everyOwned_def list_all_iff set_allSquares [symmetric] by auto

lemma allOwned_everyOwned:
  assumes "shapeOk gs"
  shows "allOwned (squares gs) \<longleftrightarrow> everyOwned gs"
proof
  assume a: "allOwned (squares gs)"
  show "everyOwned gs"
    unfolding everyOwned_iff
  proof (intro allI impI)
    fix r c assume g: "inGrid gs r c"
    then have "nat r < length (squares gs)" "nat c < length (squares gs ! nat r)"
      using assms by (auto simp: inGrid_def shapeOk_def list_all_length)
    then show "ownerAt gs r c \<noteq> None"
      using a by (simp add: allOwned_def list_all_length ownerAt_def)
  qed
next
  assume e: "everyOwned gs"
  show "allOwned (squares gs)"
    unfolding allOwned_def list_all_length
  proof (intro allI impI)
    fix i j assume i: "i < length (squares gs)" and j: "j < length (squares gs ! i)"
    then have "inGrid gs (int i) (int j)"
      using assms by (auto simp: inGrid_def shapeOk_def list_all_length)
    then have "ownerAt gs (int i) (int j) \<noteq> None" using e by (simp add: everyOwned_iff)
    then show "squares gs ! i ! j \<noteq> None" by (simp add: ownerAt_def)
  qed
qed

lemma initial_not_everyOwned: "0 < n \<Longrightarrow> 0 < m \<Longrightarrow> \<not> everyOwned (createInitialState n m)"
  unfolding everyOwned_iff
  by (auto simp: inGrid_def ownerAt_def createInitialState_def intro!: exI [of _ 0])

lemma reachable_over_iff: "reachable gs \<Longrightarrow> isGameOver gs \<longleftrightarrow> everyOwned gs"
proof (induction rule: reachable.induct)
  case (init n m)
  then show ?case using initial_not_everyOwned [of n m] by (simp add: createInitialState_def)
next
  case (step gs th ty r c gs' ai)
  note sp = accepted_spec [OF reachable_shapeOk [OF step.hyps(1)] step.hyps(2)]
  show ?case using sp(9) allOwned_everyOwned [OF sp(1)] by simp
qed

lemma over_rejects: "isGameOver gs \<Longrightarrow> handleMove th gs ty r c = Rejected"
  by (simp add: handleMove_def)

lemma over_frozen: "isGameOver gs \<Longrightarrow> play gs ms = gs"
  by (induction ms) (simp_all add: over_rejects sessionAfter_def)

lemma play_append: "play gs (ms @ ms') = play (play gs ms) ms'"
  by (induction ms arbitrary: gs) simp_all

lemma trace_Cons: "\<exists>t. trace gs ms = gs # t"
  by (cases ms) simp_all

lemma flips_Nil: "flips gs [] = 0"
  by (simp add: flips_def)

lemma flips_Cons:
  "flips gs (m # ms) =
     (if \<not> isGameOver gs \<and> isGameOver (sessionAfter gs (handleMove False gs (mtype m) (mr m) (mc m)))
      then 1 else 0)
     + flips (sessionAfter gs (handleMove False gs (mtype m) (mr m) (mc m))) ms"
proof -
  let ?g1 = "sessionAfter gs (handleMove False gs (mtype m) (mr m) (mc m))"
  obtain t where t: "trace ?g1 ms = ?g1 # t" using trace_Cons by blast
  show ?thesis by (simp add: flips_def t)
qed

lemma flips_eq:
  "flips gs ms = (if \<not> isGameOver gs \<and> isGameOver (play gs ms) then 1 else 0)"
proof (induction ms arbitrary: gs)
  case Nil
  show ?case by (simp add: flips_Nil)
next
  case (Cons m ms)
  let ?g1 = "sessionAfter gs (handleMove False gs (mtype m) (mr m) (mc m))"
  show ?case
  proof (cases "isGameOver gs")
    case True
    then have "?g1 = gs" by (simp add: over_rejects sessionAfter_def)
    then show ?thesis using True Cons.IH [of gs] by (simp add: flips_Cons)
  next
    case False
    show ?thesis
    proof (cases "isGameOver ?g1")
      case True
      then show ?thesis using False Cons.IH [of ?g1] by (simp add: flips_Cons over_frozen)
    next
      case g1: False
      then show ?thesis using False Cons.IH [of ?g1] by (simp add: flips_Cons)
    qed
  qed
qed

lemma last_fill:
  assumes "reachable gs" "handleMove th gs ty r c = Accepted gs' ai" "isGameOver gs'"
  shows "\<not> isGameOver gs" "unowned gs \<noteq> []" "newlyOwned gs gs' = unowned gs"
proof -
  have s: "shapeOk gs" using assms(1) by (rule reachable_shapeOk)
  note sp = accepted_spec [OF s assms(2)]
  show no: "\<not> isGameOver gs" using handleMove_accepted(1) [OF s assms(2)] .
  then have "\<not> everyOwned gs" using reachable_over_iff [OF assms(1)] by simp
  then show "unowned gs \<noteq> []"
    by (auto simp: everyOwned_def unowned_def list_all_iff filter_empty_conv)
  have "everyOwned gs'"
    using reachable_over_iff [OF reachable.step [OF assms(1,2)]] assms(3) by simp
  moreover have "allSquares gs' = allSquares gs" by (simp add: allSquares_def sp(2,3))
  ultimately have "\<forall>(r', c') \<in> set (allSquares gs). ownerAt gs' r' c' \<noteq> None"
    by (simp add: everyOwned_def list_all_iff)
  then show "newlyOwned gs gs' = unowned gs"
    unfolding newlyOwned_def unowned_def by (intro filter_cong) auto
qed

text \<open>
  Claim C5. On every reachable session, and so after every accepted move, \<^verbatim>\<open>isGameOver\<close> is
  true exactly when every square has an owner. An accepted move that leaves it true
  started from a session that was not over and had unowned squares, and it gave an owner
  to all of them. Once it is true every call is rejected and the session stays as it is,
  so along any sequence of calls the flag goes from false to true once if the sequence
  ends over and never otherwise, and it does not become false again.
\<close>

theorem isGameOver_once:
  assumes "reachable gs"
  shows "(isGameOver gs \<longleftrightarrow> everyOwned gs) \<and>
         (\<forall>th ty r c gs' ai. handleMove th gs ty r c = Accepted gs' ai \<longrightarrow>
            (isGameOver gs' \<longleftrightarrow> everyOwned gs') \<and>
            (isGameOver gs' \<longrightarrow>
               \<not> isGameOver gs \<and> unowned gs \<noteq> [] \<and> newlyOwned gs gs' = unowned gs)) \<and>
         (isGameOver gs \<longrightarrow>
            (\<forall>th ty r c. handleMove th gs ty r c = Rejected) \<and> (\<forall>ms. play gs ms = gs)) \<and>
         (\<forall>ms. flips gs ms = (if \<not> isGameOver gs \<and> isGameOver (play gs ms) then 1 else 0)) \<and>
         (\<forall>ms ms'. isGameOver (play gs ms) \<longrightarrow> isGameOver (play gs (ms @ ms')))"
proof -
  have 1: "isGameOver gs \<longleftrightarrow> everyOwned gs" using assms by (rule reachable_over_iff)
  have 2: "\<forall>th ty r c gs' ai. handleMove th gs ty r c = Accepted gs' ai \<longrightarrow>
            (isGameOver gs' \<longleftrightarrow> everyOwned gs') \<and>
            (isGameOver gs' \<longrightarrow>
               \<not> isGameOver gs \<and> unowned gs \<noteq> [] \<and> newlyOwned gs gs' = unowned gs)"
  proof (intro allI impI conjI)
    fix th ty r c gs' ai
    assume a: "handleMove th gs ty r c = Accepted gs' ai"
    show "isGameOver gs' \<longleftrightarrow> everyOwned gs'"
      using reachable_over_iff [OF reachable.step [OF assms a]] .
    assume o: "isGameOver gs'"
    show "\<not> isGameOver gs" "unowned gs \<noteq> []" "newlyOwned gs gs' = unowned gs"
      using last_fill [OF assms a o] by simp_all
  qed
  have 3: "isGameOver gs \<longrightarrow>
            (\<forall>th ty r c. handleMove th gs ty r c = Rejected) \<and> (\<forall>ms. play gs ms = gs)"
    by (simp add: over_rejects over_frozen)
  have 4: "\<forall>ms. flips gs ms = (if \<not> isGameOver gs \<and> isGameOver (play gs ms) then 1 else 0)"
    by (simp add: flips_eq)
  have 5: "\<forall>ms ms'. isGameOver (play gs ms) \<longrightarrow> isGameOver (play gs (ms @ ms'))"
    by (simp add: play_append over_frozen)
  from 1 2 3 4 5 show ?thesis by (intro conjI)
qed

theorem isGameOver_once_witness:
  "reachable (createInitialState 1 1) \<and>
   \<not> isGameOver (createInitialState 1 1) \<and>
   \<not> isGameOver (play (createInitialState 1 1) (take 3 squareZeroMoves)) \<and>
   isGameOver (play (createInitialState 1 1) squareZeroMoves) \<and>
   everyOwned (play (createInitialState 1 1) squareZeroMoves) \<and>
   flips (createInitialState 1 1) (squareZeroMoves @ squareZeroMoves) = 1 \<and>
   isGameOver (play (createInitialState 1 1) (squareZeroMoves @ squareZeroMoves))"
proof -
  let ?g0 = "createInitialState 1 1"
  have r: "reachable ?g0" by (rule reachable.init) simp_all
  have e: "\<not> isGameOver ?g0" "\<not> isGameOver (play ?g0 (take 3 squareZeroMoves))"
    "isGameOver (play ?g0 squareZeroMoves)" "everyOwned (play ?g0 squareZeroMoves)"
    by code_simp+
  show ?thesis using r e isGameOver_once [OF r] by simp
qed

section \<open>The local fallback on a well-shaped board\<close>

text \<open>The tests of the heuristic, as predicates on a well-shaped board.\<close>

lemma collectFree_shape:
  "(\<And>r c. (r, c) \<in> set cs \<Longrightarrow> cell lines r c = Some (f r c)) \<Longrightarrow>
   collectFree t lines cs = Some (map (\<lambda>(r, c). Move (Str t) r c) (filter (\<lambda>(r, c). \<not> f r c) cs))"
proof (induction cs)
  case Nil
  show ?case by simp
next
  case (Cons x cs)
  obtain r c where x: "x = (r, c)" by (cases x)
  have 1: "cell lines r c = Some (f r c)" using Cons.prems [of r c] by (simp add: x)
  have 2: "collectFree t lines cs =
      Some (map (\<lambda>(r, c). Move (Str t) r c) (filter (\<lambda>(r, c). \<not> f r c) cs))"
    using Cons.IH Cons.prems by simp
  show ?case by (simp add: x 1 2)
qed

lemma set_hCoords:
  "(r, c) \<in> set (hCoords gs) \<longleftrightarrow> 0 \<le> r \<and> r \<le> int (rows gs) \<and> 0 \<le> c \<and> c < int (cols gs)"
proof -
  have a: "r \<in> int ` {0..<rows gs + 1} \<longleftrightarrow> 0 \<le> r \<and> r \<le> int (rows gs)"
    by (auto simp: image_iff intro: rev_bexI [of "nat r"])
  have b: "c \<in> int ` {0..<cols gs} \<longleftrightarrow> 0 \<le> c \<and> c < int (cols gs)"
    by (auto simp: image_iff intro: rev_bexI [of "nat c"])
  show ?thesis unfolding hCoords_def set_product set_map set_upt mem_Sigma_iff a b by simp
qed

lemma set_vCoords:
  "(r, c) \<in> set (vCoords gs) \<longleftrightarrow> 0 \<le> r \<and> r < int (rows gs) \<and> 0 \<le> c \<and> c \<le> int (cols gs)"
proof -
  have a: "r \<in> int ` {0..<rows gs} \<longleftrightarrow> 0 \<le> r \<and> r < int (rows gs)"
    by (auto simp: image_iff intro: rev_bexI [of "nat r"])
  have b: "c \<in> int ` {0..<cols gs + 1} \<longleftrightarrow> 0 \<le> c \<and> c \<le> int (cols gs)"
    by (auto simp: image_iff intro: rev_bexI [of "nat c"])
  show ?thesis unfolding vCoords_def set_product set_map set_upt mem_Sigma_iff a b by simp
qed

lemma availableMoves_shape:
  assumes "shapeOk gs"
  shows "availableMoves gs =
     Some (map (\<lambda>(r, c). Move (Str ''h'') r c) (filter (\<lambda>(r, c). \<not> hLine gs r c) (hCoords gs))
           @ map (\<lambda>(r, c). Move (Str ''v'') r c) (filter (\<lambda>(r, c). \<not> vLine gs r c) (vCoords gs)))"
proof -
  have h: "collectFree ''h'' (horizontalLines gs) (hCoords gs) =
      Some (map (\<lambda>(r, c). Move (Str ''h'') r c) (filter (\<lambda>(r, c). \<not> hLine gs r c) (hCoords gs)))"
    by (rule collectFree_shape) (simp add: set_hCoords cell_h [OF assms])
  have v: "collectFree ''v'' (verticalLines gs) (vCoords gs) =
      Some (map (\<lambda>(r, c). Move (Str ''v'') r c) (filter (\<lambda>(r, c). \<not> vLine gs r c) (vCoords gs)))"
    by (rule collectFree_shape) (simp add: set_vCoords cell_v [OF assms])
  show ?thesis by (simp add: availableMoves_def h v)
qed

lemma availableMoves_set:
  assumes "shapeOk gs" "availableMoves gs = Some ms"
  shows "m \<in> set ms \<longleftrightarrow> unclaimedEdge gs m"
proof -
  obtain t r c where m: "m = Move t r c" by (cases m)
  have "ms = map (\<lambda>(r, c). Move (Str ''h'') r c) (filter (\<lambda>(r, c). \<not> hLine gs r c) (hCoords gs))
           @ map (\<lambda>(r, c). Move (Str ''v'') r c) (filter (\<lambda>(r, c). \<not> vLine gs r c) (vCoords gs))"
    using assms by (simp add: availableMoves_shape)
  then show ?thesis
    by (auto simp: m unclaimedEdge_def edgeFree_def set_hCoords set_vCoords image_iff)
qed

lemma anyThreeSided_shape:
  "shapeOk gs \<Longrightarrow> anyThreeSided gs sqs = Some (\<exists>(r, c) \<in> set sqs. inGrid gs r c \<and> sidesAt gs r c = 3)"
  by (induction sqs) (auto simp: gssc_shape)

lemma allBelowTwo_shape:
  "shapeOk gs \<Longrightarrow> allBelowTwo gs sqs = Some (\<forall>(r, c) \<in> set sqs. inGrid gs r c \<longrightarrow> sidesAt gs r c < 2)"
  by (induction sqs) (auto simp: gssc_shape)

lemma findCompleting_shape:
  "shapeOk gs \<Longrightarrow> findCompleting gs ms = Some (find (threeP gs) ms)"
  by (induction ms) (simp_all add: anyThreeSided_shape threeP_def)

lemma safeFilter_shape:
  "shapeOk gs \<Longrightarrow> safeFilter gs ms = Some (filter (safeP gs) ms)"
  by (induction ms) (simp_all add: allBelowTwo_shape safeP_def)

lemma localFallback_shape:
  assumes "shapeOk gs" "availableMoves gs = Some ms"
  shows "localFallback gs rnd =
     Some (case find (threeP gs) ms of
             Some m \<Rightarrow> Some m
           | None \<Rightarrow> if filter (safeP gs) ms \<noteq> [] then nthOpt (filter (safeP gs) ms) rnd
                     else nthOpt ms 0)"
  using assms
  by (simp add: localFallback_def findCompleting_shape safeFilter_shape split: option.splits)

section \<open>The tests of the fallback and the board\<close>

lemma afterPlacing_sides:
  assumes "shapeOk gs" "unclaimedEdge gs m" "inGrid gs r c"
  shows "getSquareSideCount gs r c = Some (sidesAt gs r c)"
    "getSquareSideCount (afterPlacing gs m) r c =
       Some (sidesAt gs r c +
             (if (r, c) \<in> set (adjacentSquares (mtype m = Str ''h'') (mr m) (mc m)) then 1 else 0))"
proof -
  have e: "edgeFree gs (mtype m = Str ''h'') (mr m) (mc m)"
    using assms(2) by (simp add: unclaimedEdge_def)
  have p: "0 \<le> r" "0 \<le> c" using assms(3) by (auto simp: inGrid_def)
  show "getSquareSideCount gs r c = Some (sidesAt gs r c)"
    using assms(3) by (simp add: gssc_shape [OF assms(1)])
  show "getSquareSideCount (afterPlacing gs m) r c =
       Some (sidesAt gs r c +
             (if (r, c) \<in> set (adjacentSquares (mtype m = Str ''h'') (mr m) (mc m)) then 1 else 0))"
    unfolding afterPlacing_def
    using assms(3) markLine_sides [OF assms(1) e p]
    by (simp add: gssc_shape [OF markLine_shape [OF assms(1)]])
qed

lemma adjacent_below_four:
  assumes "shapeOk gs" "unclaimedEdge gs m" "inGrid gs r c"
    "(r, c) \<in> set (adjacentSquares (mtype m = Str ''h'') (mr m) (mc m))"
  shows "sidesAt gs r c \<le> 3"
proof -
  have e: "edgeFree gs (mtype m = Str ''h'') (mr m) (mc m)"
    using assms(2) by (simp add: unclaimedEdge_def)
  have p: "0 \<le> r" "0 \<le> c" using assms(3) by (auto simp: inGrid_def)
  have "sidesAt (markLine gs (mtype m = Str ''h'') (mr m) (mc m)) r c = sidesAt gs r c + 1"
    using markLine_sides [OF assms(1) e p] assms(4) by simp
  then show ?thesis
    using sides_range [of "markLine gs (mtype m = Str ''h'') (mr m) (mc m)" r c] by simp
qed

lemma completes_iff:
  assumes "shapeOk gs" "unclaimedEdge gs m"
  shows "completesSquare gs m \<longleftrightarrow> threeP gs m"
proof -
  have "completesSquare gs m \<longleftrightarrow>
        (\<exists>r c. inGrid gs r c \<and> getSquareSideCount gs r c = Some 3
                \<and> getSquareSideCount (afterPlacing gs m) r c = Some 4)"
    unfolding completesSquare_def list_ex_iff set_allSquares [symmetric] by auto
  also have "\<dots> \<longleftrightarrow> (\<exists>r c. inGrid gs r c \<and> sidesAt gs r c = 3 \<and>
                (r, c) \<in> set (adjacentSquares (mtype m = Str ''h'') (mr m) (mc m)))"
    using afterPlacing_sides [OF assms] by (intro ex_cong1 conj_cong refl) (auto split: if_splits)
  also have "\<dots> \<longleftrightarrow> threeP gs m"
    unfolding threeP_def by auto
  finally show ?thesis .
qed

lemma afterPlacing_sidesAt:
  assumes "shapeOk gs" "unclaimedEdge gs m" "inGrid gs r c"
  shows "sidesAt (afterPlacing gs m) r c = sidesAt gs r c +
           (if (r, c) \<in> set (adjacentSquares (mtype m = Str ''h'') (mr m) (mc m)) then 1 else 0)"
proof -
  have e: "edgeFree gs (mtype m = Str ''h'') (mr m) (mc m)"
    using assms(2) by (simp add: unclaimedEdge_def)
  have p: "0 \<le> r" "0 \<le> c" using assms(3) by (auto simp: inGrid_def)
  show ?thesis unfolding afterPlacing_def by (rule markLine_sides [OF assms(1) e p])
qed

lemma raisedToThree_iff:
  "raisedToThree gs gs' \<longleftrightarrow> (\<exists>r c. inGrid gs r c \<and> sidesAt gs r c \<noteq> 3 \<and> sidesAt gs' r c = 3)"
  unfolding raisedToThree_def list_ex_iff set_allSquares [symmetric] by auto

lemma third_iff:
  assumes "shapeOk gs" "unclaimedEdge gs m"
  shows "makesThirdSide gs m \<longleftrightarrow>
         (\<exists>r c. inGrid gs r c \<and> sidesAt gs r c = 2 \<and>
                (r, c) \<in> set (adjacentSquares (mtype m = Str ''h'') (mr m) (mc m)))"
proof -
  have key: "(sidesAt gs r c \<noteq> 3 \<and> sidesAt (afterPlacing gs m) r c = 3) \<longleftrightarrow>
             (sidesAt gs r c = 2 \<and>
                (r, c) \<in> set (adjacentSquares (mtype m = Str ''h'') (mr m) (mc m)))"
    if "inGrid gs r c" for r c
    unfolding afterPlacing_sidesAt [OF assms that] by (auto split: if_splits)
  show ?thesis unfolding makesThirdSide_def raisedToThree_iff using key by blast
qed

lemma accepted_raised:
  assumes "shapeOk gs" "handleMove th gs (mtype m) (mr m) (mc m) = Accepted gs' ai"
    "unclaimedEdge gs m"
  shows "raisedToThree gs gs' \<longleftrightarrow> makesThirdSide gs m"
proof -
  note sp = accepted_spec [OF assms(1,2)]
  have "sidesAt gs' r c = sidesAt (afterPlacing gs m) r c" if "inGrid gs r c" for r c
  proof -
    have p: "0 \<le> r" "0 \<le> c" using that by (auto simp: inGrid_def)
    show ?thesis unfolding afterPlacing_sidesAt [OF assms(1,3) that] by (rule sp(5) [OF p])
  qed
  then show ?thesis
    unfolding makesThirdSide_def raisedToThree_iff by (intro iff_exI conj_cong refl) simp
qed

lemma unclaimed_accepted:
  assumes "shapeOk gs" "unclaimedEdge gs m" "\<not> isGameOver gs"
  shows "\<exists>gs' ai. handleMove th gs (mtype m) (mr m) (mc m) = Accepted gs' ai"
  using assms placeLine_spec [OF assms(1), of th "mtype m = Str ''h''" "mr m" "mc m"]
  by (auto simp: handleMove_shape unclaimedEdge_def)

lemma noThreeSided_iff:
  "shapeOk gs \<Longrightarrow> noThreeSided gs \<longleftrightarrow> (\<forall>r c. inGrid gs r c \<longrightarrow> sidesAt gs r c \<noteq> 3)"
  unfolding noThreeSided_def list_all_iff set_allSquares [symmetric] by auto

lemma safe_iff:
  assumes "shapeOk gs" "unclaimedEdge gs m" "noThreeSided gs"
  shows "safeP gs m \<longleftrightarrow> \<not> makesThirdSide gs m"
proof -
  have r: "sidesAt gs r c < 2 \<longleftrightarrow> sidesAt gs r c \<noteq> 2"
    if "inGrid gs r c" "(r, c) \<in> set (adjacentSquares (mtype m = Str ''h'') (mr m) (mc m))" for r c
  proof -
    have "sidesAt gs r c \<noteq> 3"
      using assms(3) that(1) by (simp add: noThreeSided_iff [OF assms(1)])
    moreover have "sidesAt gs r c \<le> 3" by (rule adjacent_below_four [OF assms(1,2) that])
    ultimately show ?thesis by arith
  qed
  show ?thesis
    unfolding third_iff [OF assms(1,2)] safeP_def using r by auto
qed

lemma no_three_no_hit: "shapeOk gs \<Longrightarrow> noThreeSided gs \<Longrightarrow> \<not> threeP gs m"
  by (auto simp: threeP_def noThreeSided_iff)

lemma find_hit:
  "m \<in> set ms \<Longrightarrow> P m \<Longrightarrow> \<exists>m'. find P ms = Some m' \<and> m' \<in> set ms \<and> P m'"
  by (induction ms) auto

section \<open>What the local fallback chooses\<close>

text \<open>
  Claim C6. On a reachable session, when some unclaimed edge would take a square from
  side count 3 to 4, the local fallback of \<^verbatim>\<open>triggerAi\<close> returns an unclaimed edge that does
  so, whatever the random index. In particular, when square (0,0) has exactly three sides
  and no other square has, it returns the fourth edge of square (0,0).
\<close>

theorem fallback_completes_square:
  assumes "reachable gs"
  shows "((\<exists>m. unclaimedEdge gs m \<and> completesSquare gs m) \<longrightarrow>
            (\<exists>m. localFallback gs rnd = Some (Some m) \<and> unclaimedEdge gs m \<and> completesSquare gs m)) \<and>
         (getSquareSideCount gs 0 0 = Some 3 \<and>
            (\<forall>(r, c) \<in> set (allSquares gs). (r, c) \<noteq> (0, 0) \<longrightarrow> getSquareSideCount gs r c \<noteq> Some 3) \<longrightarrow>
            (\<exists>m. localFallback gs rnd = Some (Some m) \<and> m \<in> set (edgesOf 0 0) \<and> unclaimedEdge gs m \<and>
                 getSquareSideCount (afterPlacing gs m) 0 0 = Some 4))"
proof -
  have s: "shapeOk gs" using assms by (rule reachable_shapeOk)
  obtain ms where ms: "availableMoves gs = Some ms" by (simp add: availableMoves_shape [OF s])
  note mem = availableMoves_set [OF s ms]
  note lf = localFallback_shape [OF s ms, of rnd]
  have hit: "\<exists>m'. localFallback gs rnd = Some (Some m') \<and> unclaimedEdge gs m' \<and> threeP gs m'"
    if "unclaimedEdge gs m" "threeP gs m" for m
  proof -
    from that mem [of m] have "m \<in> set ms" by simp
    from find_hit [of m ms "threeP gs", OF this that(2)]
    obtain m' where f: "find (threeP gs) ms = Some m'" "m' \<in> set ms" "threeP gs m'" by blast
    show ?thesis using f mem [of m'] by (simp add: lf)
  qed
  have 1: "(\<exists>m. unclaimedEdge gs m \<and> completesSquare gs m) \<longrightarrow>
            (\<exists>m. localFallback gs rnd = Some (Some m) \<and> unclaimedEdge gs m \<and> completesSquare gs m)"
  proof
    assume "\<exists>m. unclaimedEdge gs m \<and> completesSquare gs m"
    then obtain m where m: "unclaimedEdge gs m" "threeP gs m"
      using completes_iff [OF s] by blast
    from hit [OF m] obtain m' where "localFallback gs rnd = Some (Some m')"
      "unclaimedEdge gs m'" "threeP gs m'" by blast
    then show "\<exists>m. localFallback gs rnd = Some (Some m) \<and> unclaimedEdge gs m \<and> completesSquare gs m"
      using completes_iff [OF s] by blast
  qed
  have 2: "getSquareSideCount gs 0 0 = Some 3 \<and>
            (\<forall>(r, c) \<in> set (allSquares gs). (r, c) \<noteq> (0, 0) \<longrightarrow> getSquareSideCount gs r c \<noteq> Some 3) \<longrightarrow>
            (\<exists>m. localFallback gs rnd = Some (Some m) \<and> m \<in> set (edgesOf 0 0) \<and> unclaimedEdge gs m \<and>
                 getSquareSideCount (afterPlacing gs m) 0 0 = Some 4)"
  proof
    assume a: "getSquareSideCount gs 0 0 = Some 3 \<and>
            (\<forall>(r, c) \<in> set (allSquares gs). (r, c) \<noteq> (0, 0) \<longrightarrow> getSquareSideCount gs r c \<noteq> Some 3)"
    have g0: "inGrid gs 0 0" using a by (simp add: gssc_shape [OF s] split: if_splits)
    then have s0: "sidesAt gs 0 0 = 3" using a by (simp add: gssc_shape [OF s])
    have only: "(r, c) = (0, 0)" if "inGrid gs r c" "sidesAt gs r c = 3" for r c
    proof (rule ccontr)
      assume "(r, c) \<noteq> (0, 0)"
      moreover have "(r, c) \<in> set (allSquares gs)" using that(1) by (simp add: set_allSquares)
      ultimately have "getSquareSideCount gs r c \<noteq> Some 3" using a by blast
      then show False using that by (simp add: gssc_shape [OF s])
    qed
    have "\<exists>e \<in> set (edgesOf 0 0). unclaimedEdge gs e"
      using s0 g0
      by (auto simp: sidesAt_def edgesOf_def unclaimedEdge_def edgeFree_def inGrid_def
          split: if_splits)
    then obtain e where e: "e \<in> set (edgesOf 0 0)" "unclaimedEdge gs e" by blast
    have "(0, 0) \<in> set (adjacentSquares (mtype e = Str ''h'') (mr e) (mc e))"
      using e(1) by (auto simp: edgesOf_def adjacentSquares_def)
    then have "threeP gs e" using g0 s0 by (auto simp: threeP_def)
    from hit [OF e(2) this] obtain m where m: "localFallback gs rnd = Some (Some m)"
      "unclaimedEdge gs m" "threeP gs m" by blast
    from m(3) only have adj: "(0, 0) \<in> set (adjacentSquares (mtype m = Str ''h'') (mr m) (mc m))"
      by (auto simp: threeP_def)
    have "m \<in> set (edgesOf 0 0)"
      using adj m(2) by (cases m) (auto simp: edgesOf_def adjacentSquares_def unclaimedEdge_def split: if_splits)
    moreover have "getSquareSideCount (afterPlacing gs m) 0 0 = Some 4"
      using afterPlacing_sides(2) [OF s m(2) g0] adj s0 by simp
    ultimately show "\<exists>m. localFallback gs rnd = Some (Some m) \<and> m \<in> set (edgesOf 0 0) \<and>
        unclaimedEdge gs m \<and> getSquareSideCount (afterPlacing gs m) 0 0 = Some 4"
      using m by blast
  qed
  from 1 2 show ?thesis by (intro conjI)
qed

theorem fallback_completes_square_witness:
  "reachable (play (createInitialState 2 2) (take 3 squareZeroMoves)) \<and>
   unclaimedEdge (play (createInitialState 2 2) (take 3 squareZeroMoves)) (Move (Str ''h'') 1 0) \<and>
   completesSquare (play (createInitialState 2 2) (take 3 squareZeroMoves)) (Move (Str ''h'') 1 0) \<and>
   getSquareSideCount (play (createInitialState 2 2) (take 3 squareZeroMoves)) 0 0 = Some 3 \<and>
   localFallback (play (createInitialState 2 2) (take 3 squareZeroMoves)) 7
     = Some (Some (Move (Str ''h'') 1 0)) \<and>
   (\<exists>m. localFallback (play (createInitialState 2 2) (take 3 squareZeroMoves)) 7 = Some (Some m) \<and>
        m \<in> set (edgesOf 0 0) \<and>
        getSquareSideCount (afterPlacing (play (createInitialState 2 2) (take 3 squareZeroMoves)) m) 0 0
          = Some 4)"
proof -
  let ?g = "play (createInitialState 2 2) (take 3 squareZeroMoves)"
  have r: "reachable ?g" by (rule play_reachable, rule reachable.init) simp_all
  have h1: "unclaimedEdge ?g (Move (Str ''h'') 1 0)" "completesSquare ?g (Move (Str ''h'') 1 0)"
    by code_simp+
  have h2: "getSquareSideCount ?g 0 0 = Some 3" by code_simp
  have "list_all (\<lambda>(r, c). (r, c) \<noteq> (0, 0) \<longrightarrow> getSquareSideCount ?g r c \<noteq> Some 3) (allSquares ?g)"
    by code_simp
  then have h3: "\<forall>(r, c) \<in> set (allSquares ?g). (r, c) \<noteq> (0, 0) \<longrightarrow> getSquareSideCount ?g r c \<noteq> Some 3"
    by (simp add: list_all_iff)
  have v: "localFallback ?g 7 = Some (Some (Move (Str ''h'') 1 0))" by code_simp
  from fallback_completes_square [OF r, of 7] h1 h2 h3
  have "\<exists>m. localFallback ?g 7 = Some (Some m) \<and> m \<in> set (edgesOf 0 0) \<and> unclaimedEdge ?g m \<and>
             getSquareSideCount (afterPlacing ?g m) 0 0 = Some 4"
    by blast
  then show ?thesis using r h1 h2 v by blast
qed

text \<open>
  Claim C7. On a reachable session where no square has side count 3 and some unclaimed
  edge would not take any square to side count exactly 3, every move the local fallback
  returns is an unclaimed edge that takes no square to side count exactly 3, counted on
  the edge arrays: neither with the edge marked, nor in the session \<^verbatim>\<open>handleMove\<close> leaves
  when it plays the move, which it does unless the game is over. The fallback returns a
  move for every index below the number of such safe edges.
\<close>

theorem fallback_avoids_third_side:
  assumes "reachable gs" "noThreeSided gs" "\<exists>m. unclaimedEdge gs m \<and> \<not> makesThirdSide gs m"
  shows "(\<forall>rnd m. localFallback gs rnd = Some (Some m) \<longrightarrow>
            unclaimedEdge gs m \<and> \<not> makesThirdSide gs m \<and>
            (\<forall>th gs' ai. handleMove th gs (mtype m) (mr m) (mc m) = Accepted gs' ai \<longrightarrow>
               \<not> raisedToThree gs gs') \<and>
            (\<not> isGameOver gs \<longrightarrow>
               (\<forall>th. \<exists>gs' ai. handleMove th gs (mtype m) (mr m) (mc m) = Accepted gs' ai))) \<and>
         (\<exists>n > 0. \<forall>rnd < n. \<exists>m. localFallback gs rnd = Some (Some m)) \<and>
         (\<forall>rnd. localFallback gs rnd \<noteq> None)"
proof -
  have s: "shapeOk gs" using assms(1) by (rule reachable_shapeOk)
  obtain ms where ms: "availableMoves gs = Some ms" by (simp add: availableMoves_shape [OF s])
  note mem = availableMoves_set [OF s ms]
  let ?safe = "filter (safeP gs) ms"
  have none: "find (threeP gs) ms = None"
    by (simp add: find_None_iff no_three_no_hit [OF s assms(2)])
  from assms(3) obtain m0 where m0: "unclaimedEdge gs m0" "\<not> makesThirdSide gs m0" by blast
  then have "m0 \<in> set ?safe" using mem [of m0] safe_iff [OF s m0(1) assms(2)] by simp
  then have ne: "?safe \<noteq> []" by (auto simp: filter_empty_conv)
  have lf: "localFallback gs rnd = Some (nthOpt ?safe rnd)" for rnd
    using ne by (simp add: localFallback_shape [OF s ms] none)
  have 1: "\<forall>rnd m. localFallback gs rnd = Some (Some m) \<longrightarrow>
            unclaimedEdge gs m \<and> \<not> makesThirdSide gs m \<and>
            (\<forall>th gs' ai. handleMove th gs (mtype m) (mr m) (mc m) = Accepted gs' ai \<longrightarrow>
               \<not> raisedToThree gs gs') \<and>
            (\<not> isGameOver gs \<longrightarrow>
               (\<forall>th. \<exists>gs' ai. handleMove th gs (mtype m) (mr m) (mc m) = Accepted gs' ai))"
  proof (intro allI impI)
    fix rnd m assume "localFallback gs rnd = Some (Some m)"
    then have "rnd < length ?safe" "m = ?safe ! rnd"
      by (auto simp: lf nthOpt_def split: if_splits)
    then have "m \<in> set ?safe" using nth_mem by blast
    then have u: "unclaimedEdge gs m" and sf: "safeP gs m" using mem [of m] by simp_all
    have nt: "\<not> makesThirdSide gs m" using safe_iff [OF s u assms(2)] sf by simp
    have eng: "\<forall>th gs' ai. handleMove th gs (mtype m) (mr m) (mc m) = Accepted gs' ai \<longrightarrow>
               \<not> raisedToThree gs gs'"
    proof (intro allI impI)
      fix th gs' ai assume a: "handleMove th gs (mtype m) (mr m) (mc m) = Accepted gs' ai"
      show "\<not> raisedToThree gs gs'" using accepted_raised [OF s a u] nt by simp
    qed
    have acc: "\<not> isGameOver gs \<longrightarrow>
               (\<forall>th. \<exists>gs' ai. handleMove th gs (mtype m) (mr m) (mc m) = Accepted gs' ai)"
      using unclaimed_accepted [OF s u] by blast
    from u nt eng acc
    show "unclaimedEdge gs m \<and> \<not> makesThirdSide gs m \<and>
            (\<forall>th gs' ai. handleMove th gs (mtype m) (mr m) (mc m) = Accepted gs' ai \<longrightarrow>
               \<not> raisedToThree gs gs') \<and>
            (\<not> isGameOver gs \<longrightarrow>
               (\<forall>th. \<exists>gs' ai. handleMove th gs (mtype m) (mr m) (mc m) = Accepted gs' ai))"
      by (intro conjI)
  qed
  have 2: "\<exists>n > 0. \<forall>rnd < n. \<exists>m. localFallback gs rnd = Some (Some m)"
    using ne by (intro exI [of _ "length ?safe"]) (simp add: lf nthOpt_def)
  have 3: "\<forall>rnd. localFallback gs rnd \<noteq> None" by (simp add: lf)
  from 1 2 3 show ?thesis by (intro conjI)
qed

theorem fallback_avoids_third_side_witness:
  "reachable (play (createInitialState 2 2) twoSideMoves) \<and>
   noThreeSided (play (createInitialState 2 2) twoSideMoves) \<and>
   sidesAt (play (createInitialState 2 2) twoSideMoves) 0 0 = 2 \<and>
   unclaimedEdge (play (createInitialState 2 2) twoSideMoves) (Move (Str ''h'') 0 1) \<and>
   \<not> makesThirdSide (play (createInitialState 2 2) twoSideMoves) (Move (Str ''h'') 0 1) \<and>
   unclaimedEdge (play (createInitialState 2 2) twoSideMoves) (Move (Str ''h'') 1 0) \<and>
   makesThirdSide (play (createInitialState 2 2) twoSideMoves) (Move (Str ''h'') 1 0) \<and>
   unclaimedEdge (play (createInitialState 2 2) twoSideMoves) (Move (Str ''v'') 0 1) \<and>
   makesThirdSide (play (createInitialState 2 2) twoSideMoves) (Move (Str ''v'') 0 1) \<and>
   map (localFallback (play (createInitialState 2 2) twoSideMoves)) [0..<10] =
     [Some (Some (Move (Str ''h'') 0 1)), Some (Some (Move (Str ''h'') 1 1)),
      Some (Some (Move (Str ''h'') 2 0)), Some (Some (Move (Str ''h'') 2 1)),
      Some (Some (Move (Str ''v'') 0 2)), Some (Some (Move (Str ''v'') 1 0)),
      Some (Some (Move (Str ''v'') 1 1)), Some (Some (Move (Str ''v'') 1 2)),
      Some None, Some None] \<and>
   \<not> makesThirdSide (play (createInitialState 2 2) twoSideMoves) (Move (Str ''h'') 1 1) \<and>
   \<not> raisedToThree (play (createInitialState 2 2) twoSideMoves)
       (play (createInitialState 2 2) (twoSideMoves @ [Move (Str ''h'') 1 1])) \<and>
   raisedToThree (play (createInitialState 2 2) twoSideMoves)
       (play (createInitialState 2 2) (twoSideMoves @ [Move (Str ''h'') 1 0]))"
proof -
  let ?g = "play (createInitialState 2 2) twoSideMoves"
  have r: "reachable ?g" by (rule play_reachable, rule reachable.init) simp_all
  have h: "noThreeSided ?g" "sidesAt ?g 0 0 = 2"
    "unclaimedEdge ?g (Move (Str ''h'') 0 1)" "\<not> makesThirdSide ?g (Move (Str ''h'') 0 1)"
    "unclaimedEdge ?g (Move (Str ''h'') 1 0)" "makesThirdSide ?g (Move (Str ''h'') 1 0)"
    "unclaimedEdge ?g (Move (Str ''v'') 0 1)" "makesThirdSide ?g (Move (Str ''v'') 0 1)"
    by code_simp+
  have v: "map (localFallback ?g) [0..<10] =
     [Some (Some (Move (Str ''h'') 0 1)), Some (Some (Move (Str ''h'') 1 1)),
      Some (Some (Move (Str ''h'') 2 0)), Some (Some (Move (Str ''h'') 2 1)),
      Some (Some (Move (Str ''v'') 0 2)), Some (Some (Move (Str ''v'') 1 0)),
      Some (Some (Move (Str ''v'') 1 1)), Some (Some (Move (Str ''v'') 1 2)),
      Some None, Some None]"
    by code_simp
  have v1: "localFallback ?g 1 = Some (Some (Move (Str ''h'') 1 1))" by code_simp
  have e: "raisedToThree ?g (play (createInitialState 2 2) (twoSideMoves @ [Move (Str ''h'') 1 0]))"
    by code_simp
  have "case handleMove False ?g (Str ''h'') 1 1 of Accepted g a \<Rightarrow> True | _ \<Rightarrow> False"
    by code_simp
  from accepted_sessionAfter [OF this, of ?g]
  obtain ai where a: "handleMove False ?g (Str ''h'') 1 1
      = Accepted (sessionAfter ?g (handleMove False ?g (Str ''h'') 1 1)) ai" ..
  have p: "sessionAfter ?g (handleMove False ?g (Str ''h'') 1 1)
      = play (createInitialState 2 2) (twoSideMoves @ [Move (Str ''h'') 1 1])"
    by (simp add: play_append)
  have ex: "\<exists>m. unclaimedEdge ?g m \<and> \<not> makesThirdSide ?g m" using h(3,4) by blast
  from fallback_avoids_third_side [OF r h(1) ex] v1
  have t: "\<not> makesThirdSide ?g (Move (Str ''h'') 1 1) \<and>
      (\<forall>th gs' ai. handleMove th ?g (Str ''h'') 1 1 = Accepted gs' ai \<longrightarrow> \<not> raisedToThree ?g gs')"
    by fastforce
  then have "\<not> raisedToThree ?g (play (createInitialState 2 2) (twoSideMoves @ [Move (Str ''h'') 1 1]))"
    using a p by metis
  then show ?thesis using r h v t e by (intro conjI) simp_all
qed

section \<open>The oracle and the thinking flag\<close>

text \<open>
  In src/index.js an answer of the oracle whose edge is outside the arrays or not
  \<^verbatim>\<open>false\<close> is the same as a failed call, for \<^verbatim>\<open>fetchAiMove\<close> and for \<^verbatim>\<open>triggerAi\<close>, which
  then runs the local fallback on the session as it was; and \<^verbatim>\<open>fetchAiMove\<close> returns no
  move but the oracle's own.
\<close>

lemma fetchAiMove_invalid_is_failure:
  assumes "cell (if mtype m = Str ''h'' then horizontalLines gs else verticalLines gs) (mr m) (mc m)
             \<noteq> Some False"
  shows "fetchAiMove gs hasKey (Replied m) = fetchAiMove gs hasKey Failed"
    and "triggerAi th gs hasKey (Replied m) rnd = triggerAi th gs hasKey Failed rnd"
proof -
  show 1: "fetchAiMove gs hasKey (Replied m) = fetchAiMove gs hasKey Failed"
    using assms by (simp add: fetchAiMove_def Let_def split: option.splits)
  show "triggerAi th gs hasKey (Replied m) rnd = triggerAi th gs hasKey Failed rnd"
    by (simp add: triggerAi_def 1)
qed

lemma fetchAiMove_never_substitutes:
  "fetchAiMove gs hasKey (Replied m) = Returned (Some m') \<Longrightarrow>
   m' = m \<and> cell (if mtype m = Str ''h'' then horizontalLines gs else verticalLines gs) (mr m) (mc m)
             = Some False"
  by (auto simp: fetchAiMove_def Let_def split: option.splits if_splits)



lemma sessionAfter_unchanged [simp]:
  "sessionAfter gs Rejected = gs" "sessionAfter gs Fault = gs"
  by (simp_all add: sessionAfter_def)


text \<open>
  Claim C8. An answer of the oracle that names an edge out of range or already claimed
  must count as a failed call, with no move put in its place. \<^verbatim>\<open>fetchAiMove\<close> of
  src/index.js does so. \<^verbatim>\<open>fetchAiMove\<close> of src/unnamed/part_000 returns
  \<^verbatim>\<open>availableMoves[0]\<close> instead: on the initial 4 by 4 session the answer (h, 9, 9) gives
  the move (h, 0, 0), and after (h, 0, 0) is placed the answer (h, 0, 0) gives (h, 0, 1).
\<close>

theorem part_000_oracle_substitutes_move:
  "fetchAiMove_part_000 (createInitialState 4 4) (\<lambda>n. Replied (Move (Str ''h'') 9 9)) 0
     = Returned (Some (Move (Str ''h'') 0 0)) \<and>
   fetchAiMove_part_000 (play (createInitialState 4 4) [Move (Str ''h'') 0 0])
       (\<lambda>n. Replied (Move (Str ''h'') 0 0)) 0
     = Returned (Some (Move (Str ''h'') 0 1)) \<and>
   fetchAiMove (createInitialState 4 4) True (Replied (Move (Str ''h'') 9 9)) = Returned None \<and>
   fetchAiMove (play (createInitialState 4 4) [Move (Str ''h'') 0 0]) True
       (Replied (Move (Str ''h'') 0 0)) = Returned None"
  by code_simp




end
